theory Spec2Isabelle
  imports Complex_Main "HOL-Library.AList"
begin

section \<open>Python values, exceptions and the operations the pipeline applies to them\<close>

text \<open>
  The pipeline of \<^verbatim>\<open>main.py\<close> handles the value that \<^verbatim>\<open>json.loads\<close> returns without
  checking its shape, so the categorized data is modelled as an arbitrary parsed JSON value.
  A Python \<^verbatim>\<open>dict\<close> is an association list in insertion order (its keys are distinct);
  strings are \<^typ>\<open>string\<close>. The program never inspects a number, so a number is carried by
  its literal text.
\<close>

datatype json =
    JNull
  | JBool bool
  | JNum string
  | JStr string
  | JList "json list"
  | JObj "(string \<times> json) list"

text \<open>
  Exceptions are values. \<open>DictSliceError\<close> is what \<^verbatim>\<open>d[:2]\<close> raises on a dict
  (a \<^verbatim>\<open>TypeError\<close> for the unhashable slice before Python 3.12, a \<^verbatim>\<open>KeyError\<close> from
  3.12 on); \<open>OtherError\<close> stands for whatever a collaborator raises.
\<close>

datatype exn =
    AttributeError
  | TypeError
  | KeyError string
  | DictSliceError
  | OtherError string

definition and_then :: "exn + 'a \<Rightarrow> ('a \<Rightarrow> exn + 'b) \<Rightarrow> exn + 'b" where
  "and_then m f = (case m of Inl e \<Rightarrow> Inl e | Inr x \<Rightarrow> f x)"

text \<open>A comprehension evaluates its element expression left to right and stops at the
  first exception.\<close>

fun traverse :: "('a \<Rightarrow> exn + 'b) \<Rightarrow> 'a list \<Rightarrow> exn + 'b list" where
  "traverse f [] = Inr []"
| "traverse f (x # xs) =
     and_then (f x) (\<lambda>y. and_then (traverse f xs) (\<lambda>ys. Inr (y # ys)))"

text \<open>A comprehension with a condition: \<^verbatim>\<open>[x for x in xs if c(x)]\<close>.\<close>

fun filter_m :: "('a \<Rightarrow> exn + bool) \<Rightarrow> 'a list \<Rightarrow> exn + 'a list" where
  "filter_m c [] = Inr []"
| "filter_m c (x # xs) =
     and_then (c x) (\<lambda>b. and_then (filter_m c xs) (\<lambda>ys. Inr (if b then x # ys else ys)))"

text \<open>\<^verbatim>\<open>c.values()\<close> and \<^verbatim>\<open>c.items()\<close>: only a dict has them.\<close>

fun dict_values :: "json \<Rightarrow> exn + json list" where
  "dict_values (JObj kvs) = Inr (map snd kvs)"
| "dict_values _ = Inl AttributeError"

fun dict_items :: "json \<Rightarrow> exn + (string \<times> json) list" where
  "dict_items (JObj kvs) = Inr kvs"
| "dict_items _ = Inl AttributeError"

text \<open>\<^verbatim>\<open>for h in v\<close>: a list yields its elements, a string its characters, a dict its
  keys; nothing else is iterable.\<close>

fun py_iter :: "json \<Rightarrow> exn + json list" where
  "py_iter (JList xs) = Inr xs"
| "py_iter (JStr s) = Inr (map (\<lambda>c. JStr [c]) s)"
| "py_iter (JObj kvs) = Inr (map (\<lambda>kv. JStr (fst kv)) kvs)"
| "py_iter _ = Inl TypeError"

text \<open>\<^verbatim>\<open>h['snippet']\<close>: a dict is looked up; a list or a string wants integer indices,
  the rest is not subscriptable.\<close>

fun py_getitem :: "json \<Rightarrow> string \<Rightarrow> exn + json" where
  "py_getitem (JObj kvs) k = (case map_of kvs k of None \<Rightarrow> Inl (KeyError k) | Some v \<Rightarrow> Inr v)"
| "py_getitem _ k = Inl TypeError"

text \<open>\<^verbatim>\<open>v[:n]\<close>.\<close>

fun py_slice_to :: "nat \<Rightarrow> json \<Rightarrow> exn + json" where
  "py_slice_to n (JList xs) = Inr (JList (take n xs))"
| "py_slice_to n (JStr s) = Inr (JStr (take n s))"
| "py_slice_to n (JObj kvs) = Inl DictSliceError"
| "py_slice_to n _ = Inl TypeError"

text \<open>
  \<^verbatim>\<open>s.lower()\<close>: only a string has it. The letters A to Z are lowered; Python also lowers
  letters outside ASCII, none of which becomes one of the letters of \<^verbatim>\<open>tool\<close>.
\<close>

definition lower_char :: "char \<Rightarrow> char" where
  "lower_char c =
     (case map_of (zip ''ABCDEFGHIJKLMNOPQRSTUVWXYZ'' ''abcdefghijklmnopqrstuvwxyz'') c of
        Some d \<Rightarrow> d
      | None \<Rightarrow> c)"

fun py_lower :: "json \<Rightarrow> exn + string" where
  "py_lower (JStr s) = Inr (map lower_char s)"
| "py_lower _ = Inl AttributeError"

text \<open>\<^verbatim>\<open>needle in hay\<close> on two strings.\<close>

fun is_substring :: "'a list \<Rightarrow> 'a list \<Rightarrow> bool" where
  "is_substring ns [] = (ns = [])"
| "is_substring ns (h # hs) = (take (length ns) (h # hs) = ns \<or> is_substring ns hs)"

section \<open>The data of the pipeline\<close>

record hit =
  title :: string
  snippet :: string

text \<open>A record of the search provider: a dict that may lack any of the three keys.\<close>

record raw_record =
  r_title :: "string option"
  r_body :: "string option"
  r_snippet :: "string option"

text \<open>A user profile: \<^verbatim>\<open>profile['id']\<close> and \<^verbatim>\<open>profile.get('interest')\<close>, which is
  \<^verbatim>\<open>None\<close> when the key is absent.\<close>

record profile =
  profile_id :: string
  interest :: "string option"

record session =
  theme :: string
  materials :: "json list"

text \<open>
  The bundle \<^verbatim>\<open>outputs\<close>: each field is the payload of the view's one-key dict
  (\<^verbatim>\<open>content\<close>, \<^verbatim>\<open>updates\<close>, \<^verbatim>\<open>topics\<close>, \<^verbatim>\<open>knowledge_base\<close>, \<^verbatim>\<open>sessions\<close>).
\<close>

record outputs =
  newsletter :: "json list"
  tool_vault :: "json list"
  forum :: "string list"
  coaching_bot :: "(string \<times> json list) list"
  workshops :: "session list"

section \<open>The collaborators\<close>

datatype search_outcome =
    SearchRaises exn
  | SearchResults "raw_record list"

record chat_request =
  model :: string
  messages :: "(string \<times> string) list"
  temperature :: rat

text \<open>
  What \<^verbatim>\<open>json.loads(response.choices[0].message.content)\<close> comes to: the call or the
  access to the completion raises, the content is not JSON, or it parses to a value.
\<close>

datatype completion =
    ChatRaises exn
  | NotJson exn
  | Parsed json

text \<open>What the program does to the outside, in order: the collaborator calls and the log
  (a log line is carried by its fixed text and, for an error, by the exception it reports).\<close>

datatype event =
    Searched string nat
  | Asked chat_request
  | Posted string outputs
  | LogInfo string
  | LogError string exn

text \<open>The module's globals and the libraries it calls.\<close>

record env =
  ddgs_text :: "string \<Rightarrow> nat \<Rightarrow> search_outcome"
  json_dumps :: "hit list \<Rightarrow> string"
  chat_create :: "chat_request \<Rightarrow> completion"
  ZAPIER_WEBHOOK_URL :: "string option"
  requests_post :: "string \<Rightarrow> outputs \<Rightarrow> exn option"

section \<open>\<^verbatim>\<open>web_search\<close>\<close>

text \<open>One element of the comprehension of line 45: \<^verbatim>\<open>r['title']\<close> raises when the key
  is missing, the two \<^verbatim>\<open>get\<close> calls never do.\<close>

definition normalize :: "raw_record \<Rightarrow> exn + hit" where
  "normalize r =
     (case r_title r of
        None \<Rightarrow> Inl (KeyError ''title'')
      | Some t \<Rightarrow>
          Inr \<lparr>title = t,
               snippet = (case r_body r of
                            Some b \<Rightarrow> b
                          | None \<Rightarrow> (case r_snippet r of Some s \<Rightarrow> s | None \<Rightarrow> ''''))\<rparr>)"

definition web_search :: "env \<Rightarrow> string \<Rightarrow> nat \<Rightarrow> (exn + hit list) \<times> event list" where
  "web_search e query num_results =
     (let started = [LogInfo ''Executing web search for query'', Searched query num_results];
          attempt = (case ddgs_text e query num_results of
                       SearchRaises x \<Rightarrow> Inl x
                     | SearchResults rs \<Rightarrow> traverse normalize rs)
      in case attempt of
           Inr hits \<Rightarrow> (Inr hits, started)
         | Inl x \<Rightarrow> (Inr [], started @ [LogError ''Web search failed'' x]))"

section \<open>\<^verbatim>\<open>grok_process_raw_data\<close>\<close>

definition LABELS :: "string list" where
  "LABELS = [''productivity'', ''health'', ''creativity'']"

definition FALLBACK :: json where
  "FALLBACK = JObj [(''productivity'', JList []), (''health'', JList []), (''creativity'', JList [])]"

definition prompt :: "env \<Rightarrow> hit list \<Rightarrow> string" where
  "prompt e raw_data =
     ''Categorize the following search results into 'productivity', 'health', 'creativity'. '' @
     ''Filter for uniqueness. Output as JSON: {'productivity': [list of {'title': str, 'snippet': str}], ...} '' @
     ''Data: '' @ json_dumps e raw_data"

definition request_for :: "env \<Rightarrow> hit list \<Rightarrow> chat_request" where
  "request_for e raw_data =
     \<lparr>model = ''grok-beta'',
      messages = [(''system'', ''You are an efficient categorizer. Output only valid JSON.''),
                  (''user'', prompt e raw_data)],
      temperature = 2 / 10\<rparr>"

definition grok_process_raw_data :: "env \<Rightarrow> hit list \<Rightarrow> (exn + json) \<times> event list" where
  "grok_process_raw_data e raw_data =
     (if raw_data = [] then (Inr FALLBACK, [])
      else
        (case chat_create e (request_for e raw_data) of
           Parsed categorized \<Rightarrow> (Inr categorized, [Asked (request_for e raw_data)])
         | ChatRaises x \<Rightarrow>
             (Inr FALLBACK, [Asked (request_for e raw_data), LogError ''Grok processing failed'' x])
         | NotJson x \<Rightarrow>
             (Inr FALLBACK, [Asked (request_for e raw_data), LogError ''Grok processing failed'' x])))"

section \<open>\<^verbatim>\<open>generate_outputs\<close>\<close>

text \<open>\<^verbatim>\<open>[h for hacks in categorized.values() for h in hacks]\<close>\<close>

definition flatten_values :: "json list \<Rightarrow> exn + json list" where
  "flatten_values vs = and_then (traverse py_iter vs) (\<lambda>hss. Inr (concat hss))"

text \<open>\<^verbatim>\<open>[h['snippet'] for h in hs]\<close>\<close>

definition snippets_of :: "json list \<Rightarrow> exn + json list" where
  "snippets_of hs = traverse (\<lambda>h. py_getitem h ''snippet'') hs"

text \<open>\<^verbatim>\<open>'tool' in h['snippet'].lower()\<close>\<close>

definition mentions_tool :: "json \<Rightarrow> exn + bool" where
  "mentions_tool h =
     and_then (py_getitem h ''snippet'') (\<lambda>s.
     and_then (py_lower s) (\<lambda>l. Inr (is_substring ''tool'' l)))"

text \<open>\<^verbatim>\<open>[h for hacks in categorized.values() for h in hacks if 'tool' in h['snippet'].lower()]\<close>\<close>

definition tool_hits :: "json list \<Rightarrow> exn + json list" where
  "tool_hits vs =
     and_then (traverse (\<lambda>hacks. and_then (py_iter hacks) (filter_m mentions_tool)) vs)
       (\<lambda>tss. Inr (concat tss))"

text \<open>\<^verbatim>\<open>{k: [h['snippet'] for h in v] for k, v in categorized.items()}\<close>\<close>

definition bucket_snippets :: "json \<Rightarrow> exn + json list" where
  "bucket_snippets v = and_then (py_iter v) snippets_of"

definition knowledge_base :: "(string \<times> json) list \<Rightarrow> exn + (string \<times> json list) list" where
  "knowledge_base items =
     and_then (traverse (\<lambda>kv. and_then (bucket_snippets (snd kv)) (\<lambda>ss. Inr (fst kv, ss))) items)
       (\<lambda>kss. Inr (foldl (\<lambda>d ks. AList.update (fst ks) (snd ks) d) [] kss))"

text \<open>
  The loop of lines 100 to 103 on the dict \<^verbatim>\<open>bot_knowledge\<close>, which it changes as it goes:
  \<^verbatim>\<open>if interest in bot_knowledge: bot_knowledge[profile['id']] = bot_knowledge[interest]\<close>.
\<close>

definition personalize_one :: "(string \<times> json list) list \<Rightarrow> profile \<Rightarrow> (string \<times> json list) list" where
  "personalize_one bot_knowledge p =
     (case interest p of
        None \<Rightarrow> bot_knowledge
      | Some i \<Rightarrow>
          (case map_of bot_knowledge i of
             None \<Rightarrow> bot_knowledge
           | Some ss \<Rightarrow> AList.update (profile_id p) ss bot_knowledge))"

fun personalize :: "(string \<times> json list) list \<Rightarrow> profile list \<Rightarrow> (string \<times> json list) list" where
  "personalize bot_knowledge [] = bot_knowledge"
| "personalize bot_knowledge (p # ps) = personalize (personalize_one bot_knowledge p) ps"

text \<open>\<^verbatim>\<open>{'theme': k, 'materials': [h['snippet'] for h in v[:2]]}\<close>\<close>

definition workshop_session :: "string \<times> json \<Rightarrow> exn + session" where
  "workshop_session kv =
     and_then (py_slice_to 2 (snd kv)) (\<lambda>v2.
     and_then (bucket_snippets v2) (\<lambda>ms. Inr \<lparr>theme = fst kv, materials = ms\<rparr>))"

text \<open>Lines 84 to 107: the five views, in the order the source computes them.\<close>

definition five_views :: "json \<Rightarrow> hit list \<Rightarrow> profile list option \<Rightarrow> exn + outputs" where
  "five_views categorized raw_data user_profiles =
     and_then (dict_values categorized) (\<lambda>vs.
     and_then (flatten_values vs) (\<lambda>all_hacks.
     and_then (snippets_of (take 5 all_hacks)) (\<lambda>content.
     and_then (dict_values categorized) (\<lambda>vs'.
     and_then (tool_hits vs') (\<lambda>tools.
     and_then (dict_items categorized) (\<lambda>items.
     and_then (knowledge_base items) (\<lambda>base.
     and_then (dict_items categorized) (\<lambda>items'.
     and_then (traverse workshop_session items') (\<lambda>sessions.
       Inr \<lparr>newsletter = content,
            tool_vault = tools,
            forum = map title (take 3 raw_data),
            coaching_bot = (case user_profiles of
                              None \<Rightarrow> base
                            | Some ps \<Rightarrow> if ps = [] then base else personalize base ps),
            workshops = sessions\<rparr>)))))))))"

text \<open>Lines 109 to 115: the relay, when a target is configured (a non-empty string).\<close>

definition relay :: "env \<Rightarrow> outputs \<Rightarrow> event list" where
  "relay e out =
     (case ZAPIER_WEBHOOK_URL e of
        None \<Rightarrow> []
      | Some url \<Rightarrow>
          if url = [] then []
          else (case requests_post e url out of
                  None \<Rightarrow> [Posted url out, LogInfo ''Outputs sent to Zapier webhook successfully'']
                | Some x \<Rightarrow> [Posted url out, LogError ''Failed to send to Zapier'' x]))"

definition generate_outputs ::
  "env \<Rightarrow> json \<Rightarrow> hit list \<Rightarrow> profile list option \<Rightarrow> (exn + outputs) \<times> event list" where
  "generate_outputs e categorized raw_data user_profiles =
     (case five_views categorized raw_data user_profiles of
        Inl x \<Rightarrow> (Inl x, [])
      | Inr out \<Rightarrow> (Inr out, relay e out))"

section \<open>\<^verbatim>\<open>run_automation_cycle\<close>\<close>

text \<open>
  The inbound request: \<^verbatim>\<open>request.get_json()\<close> raises, or gives a value that has no
  \<^verbatim>\<open>get\<close>, or a dict, of which the program reads \<^verbatim>\<open>user_profiles\<close> (\<open>None\<close> when the key
  is absent). The profiles of a payload are taken to be a sequence of
  \<^verbatim>\<open>{id, interest}\<close> objects, as the inbound interface describes them.
\<close>

datatype inbound =
    GetJsonRaises exn
  | NotADict
  | Payload "profile list option"

datatype reply =
    Bundle outputs
  | ErrorBody exn

definition QUERY :: string where
  "QUERY = ''latest AI life hacks for productivity health creativity site:reddit.com OR x.com''"

definition read_profiles :: "inbound \<Rightarrow> exn + profile list" where
  "read_profiles req =
     (case req of
        GetJsonRaises x \<Rightarrow> Inl x
      | NotADict \<Rightarrow> Inl AttributeError
      | Payload None \<Rightarrow> Inr []
      | Payload (Some ps) \<Rightarrow> Inr ps)"

definition run_automation_cycle :: "env \<Rightarrow> inbound \<Rightarrow> (reply \<times> nat) \<times> event list" where
  "run_automation_cycle e req =
     (case read_profiles req of
        Inl x \<Rightarrow> ((ErrorBody x, 500), [LogError ''Error in automation cycle'' x])
      | Inr user_profiles \<Rightarrow>
          (let (searched, t1) = web_search e QUERY 10 in
           case searched of
             Inl x \<Rightarrow> ((ErrorBody x, 500), t1 @ [LogError ''Error in automation cycle'' x])
           | Inr raw_data \<Rightarrow>
               (let (grokked, t2) = grok_process_raw_data e raw_data in
                case grokked of
                  Inl x \<Rightarrow> ((ErrorBody x, 500), t1 @ t2 @ [LogError ''Error in automation cycle'' x])
                | Inr categorized \<Rightarrow>
                    (let (made, t3) = generate_outputs e categorized raw_data (Some user_profiles) in
                     case made of
                       Inl x \<Rightarrow>
                         ((ErrorBody x, 500),
                          t1 @ t2 @ t3 @ [LogError ''Error in automation cycle'' x])
                     | Inr out \<Rightarrow>
                         ((Bundle out, 200),
                          t1 @ t2 @ t3 @ [LogInfo ''Automation cycle completed successfully''])))))"

section \<open>Shapes of a parsed value, and first examples\<close>

definition is_object :: "json \<Rightarrow> bool" where
  "is_object v = (case v of JObj kvs \<Rightarrow> True | _ \<Rightarrow> False)"

definition key_set :: "json \<Rightarrow> string set option" where
  "key_set v = (case v of JObj kvs \<Rightarrow> Some (set (map fst kvs)) | _ \<Rightarrow> None)"

definition example_records :: "raw_record list" where
  "example_records =
     [\<lparr>r_title = Some ''A'', r_body = Some ''Great tool for focus'', r_snippet = Some ''unused''\<rparr>,
      \<lparr>r_title = Some ''B'', r_body = None, r_snippet = Some ''Sleep well''\<rparr>,
      \<lparr>r_title = Some ''C'', r_body = None, r_snippet = None\<rparr>]"

definition example_hits :: "hit list" where
  "example_hits =
     [\<lparr>title = ''A'', snippet = ''Great tool for focus''\<rparr>,
      \<lparr>title = ''B'', snippet = ''Sleep well''\<rparr>,
      \<lparr>title = ''C'', snippet = ''''\<rparr>]"

text \<open>An environment whose search and classification outcomes are given, with a relay
  target that refuses every delivery.\<close>

definition example_env :: "search_outcome \<Rightarrow> completion \<Rightarrow> env" where
  "example_env found answered =
     \<lparr>ddgs_text = (\<lambda>q n. found),
      json_dumps = (\<lambda>hs. ''[]''),
      chat_create = (\<lambda>r. answered),
      ZAPIER_WEBHOOK_URL = Some ''https://hooks.example/catch'',
      requests_post = (\<lambda>url out. Some (OtherError ''connection refused''))\<rparr>"

section \<open>What a returning run of \<^verbatim>\<open>generate_outputs\<close> computes\<close>

text \<open>
  What a successful run reads off the categorized value. \<open>snippet_of h\<close> is the value of
  \<^verbatim>\<open>h['snippet']\<close> where that lookup succeeds.
\<close>

definition snippet_of :: "json \<Rightarrow> json" where
  "snippet_of h = (case py_getitem h ''snippet'' of Inr s \<Rightarrow> s | Inl x \<Rightarrow> JNull)"

text \<open>
  A hit that line 91 accepts: a dict whose \<^verbatim>\<open>snippet\<close> is a string.
\<close>

definition good_hit :: "json \<Rightarrow> bool" where
  "good_hit h = (case py_getitem h ''snippet'' of Inr (JStr s) \<Rightarrow> True | _ \<Rightarrow> False)"

text \<open>
  The condition of line 91 on such a hit.
\<close>

definition has_tool :: "json \<Rightarrow> bool" where
  "has_tool h = (case snippet_of h of JStr s \<Rightarrow> is_substring ''tool'' (map lower_char s) | _ \<Rightarrow> False)"

text \<open>
  The hits of a bucket: the elements of a list, nothing otherwise.
\<close>

definition bucket_hits :: "json \<Rightarrow> json list" where
  "bucket_hits v = (case v of JList hs \<Rightarrow> hs | _ \<Rightarrow> [])"

text \<open>
  A bucket on which every line of \<^verbatim>\<open>generate_outputs\<close> succeeds: a list of accepted hits,
  or the empty string (it iterates to nothing and can be sliced).
\<close>

definition good_bucket :: "json \<Rightarrow> bool" where
  "good_bucket v = (case v of JList hs \<Rightarrow> list_all good_hit hs | JStr s \<Rightarrow> s = [] | _ \<Rightarrow> False)"

text \<open>
  The flattening of all buckets, in the key order of the mapping and then in the order of
  each bucket.
\<close>

definition all_hits :: "(string \<times> json) list \<Rightarrow> json list" where
  "all_hits kvs = concat (map (\<lambda>kv. bucket_hits (snd kv)) kvs)"

text \<open>
  The knowledge base before personalization: every key with the snippets of its bucket.
\<close>

definition base_knowledge :: "(string \<times> json) list \<Rightarrow> (string \<times> json list) list" where
  "base_knowledge kvs =
     foldl (\<lambda>d ks. AList.update (fst ks) (snd ks) d) []
       (map (\<lambda>kv. (fst kv, map snippet_of (bucket_hits (snd kv)))) kvs)"

text \<open>
  The session of one key: its first two snippets.
\<close>

definition session_of :: "string \<times> json \<Rightarrow> session" where
  "session_of kv = \<lparr>theme = fst kv, materials = map snippet_of (take 2 (bucket_hits (snd kv)))\<rparr>"

text \<open>
  The knowledge base after the profiles, when there are any.
\<close>

definition personalized ::
  "(string \<times> json list) list \<Rightarrow> profile list option \<Rightarrow> (string \<times> json list) list" where
  "personalized base user_profiles =
     (case user_profiles of None \<Rightarrow> base | Some ps \<Rightarrow> personalize base ps)"

text \<open>
  The bundle that \<^verbatim>\<open>generate_outputs\<close> returns on a mapping with the items \<open>kvs\<close>.
\<close>

definition views_of :: "(string \<times> json) list \<Rightarrow> hit list \<Rightarrow> profile list option \<Rightarrow> outputs" where
  "views_of kvs raw_data user_profiles =
     \<lparr>newsletter = map snippet_of (take 5 (all_hits kvs)),
      tool_vault = filter has_tool (all_hits kvs),
      forum = map title (take 3 raw_data),
      coaching_bot = personalized (base_knowledge kvs) user_profiles,
      workshops = map session_of kvs\<rparr>"

text \<open>
  The ids of the profiles that get an entry: profile \<open>j\<close> does when its interest is a key of
  the mapping as the profiles before it have left it.
\<close>

definition assigned_ids :: "(string \<times> json list) list \<Rightarrow> profile list \<Rightarrow> string set" where
  "assigned_ids bk ps =
     {profile_id (ps ! j) | j. j < length ps \<and>
        (\<exists>i. interest (ps ! j) = Some i \<and> i \<in> fst ` set (personalize bk (take j ps)))}"

text \<open>
  A search hit and a CategorizedResult as the classification service is asked to return
  them: \<^verbatim>\<open>{'title': str, 'snippet': str}\<close> records in lists, one list per key.
\<close>

definition hit_json :: "hit \<Rightarrow> json" where
  "hit_json h = JObj [(''title'', JStr (title h)), (''snippet'', JStr (snippet h))]"

definition categorized_json :: "(string \<times> hit list) list \<Rightarrow> json" where
  "categorized_json buckets = JObj (map (\<lambda>b. (fst b, JList (map hit_json (snd b)))) buckets)"

text \<open>
  Containing \<^verbatim>\<open>tool\<close> case-insensitively, as the specification words it and without
  reference to how the code lowers a string: four consecutive characters of \<open>s\<close> are a
  \<^verbatim>\<open>t\<close>, an \<^verbatim>\<open>o\<close>, an \<^verbatim>\<open>o\<close> and an \<^verbatim>\<open>l\<close>, each in either case.
\<close>

definition tool_in_any_case :: "string \<Rightarrow> bool" where
  "tool_in_any_case s =
     (\<exists>before a b c d after.
        s = before @ [a, b, c, d] @ after \<and>
        a \<in> {CHR ''t'', CHR ''T''} \<and> b \<in> {CHR ''o'', CHR ''O''} \<and>
        c \<in> {CHR ''o'', CHR ''O''} \<and> d \<in> {CHR ''l'', CHR ''L''})"

text \<open>
  The newsletter as the specification words it, for comparison with the code: the buckets
  are taken in the fixed label order productivity, health, creativity, whatever the order
  of the mapping's keys, and the snippets of the first five hits are kept.
\<close>

definition bucket_of :: "json \<Rightarrow> string \<Rightarrow> json list" where
  "bucket_of c label =
     (case c of
        JObj kvs \<Rightarrow> (case map_of kvs label of Some v \<Rightarrow> bucket_hits v | None \<Rightarrow> [])
      | _ \<Rightarrow> [])"

definition spec_newsletter :: "json \<Rightarrow> json list" where
  "spec_newsletter c = map snippet_of (take 5 (concat (map (bucket_of c) LABELS)))"

text \<open>
  The tool vault as the specification words it: the hits of the buckets taken in the same
  fixed label order, whole, that have a string snippet containing the word in any case.
\<close>

definition spec_tool_vault :: "json \<Rightarrow> json list" where
  "spec_tool_vault c =
     filter (\<lambda>h. \<exists>s. py_getitem h ''snippet'' = Inr (JStr s) \<and> tool_in_any_case s)
       (concat (map (bucket_of c) LABELS))"

section \<open>Further examples\<close>

text \<open>
  Examples: a CategorizedResult with one hit in each of two buckets, the same with its keys
  in another order, a mapping with a renamed key, and two lists of profiles: in the first
  the second profile's interest is the id of the first, in the second the first profile's
  interest is the id of the second.
\<close>

definition example_buckets :: "(string \<times> hit list) list" where
  "example_buckets =
     [(''productivity'', [\<lparr>title = ''A'', snippet = ''Great tool for focus''\<rparr>]),
      (''health'', [\<lparr>title = ''B'', snippet = ''Sleep well''\<rparr>]),
      (''creativity'', [])]"

definition swapped_buckets :: "(string \<times> hit list) list" where
  "swapped_buckets =
     [(''health'', [\<lparr>title = ''B'', snippet = ''Sleep well''\<rparr>]),
      (''productivity'', [\<lparr>title = ''A'', snippet = ''Great tool for focus''\<rparr>]),
      (''creativity'', [])]"

definition example_items :: "(string \<times> json) list" where
  "example_items = map (\<lambda>b. (fst b, JList (map hit_json (snd b)))) example_buckets"

definition quiet_env :: env where
  "quiet_env = example_env (SearchResults []) (Parsed JNull)"

definition swapped_items :: "(string \<times> json) list" where
  "swapped_items = map (\<lambda>b. (fst b, JList (map hit_json (snd b)))) swapped_buckets"

definition renamed_items :: "(string \<times> json) list" where
  "renamed_items = [(''productivity'', JList []), (''wellness'', JList [])]"

definition example_profiles :: "profile list" where
  "example_profiles =
     [\<lparr>profile_id = ''u1'', interest = Some ''health''\<rparr>,
      \<lparr>profile_id = ''u2'', interest = Some ''u1''\<rparr>]"

definition forward_profiles :: "profile list" where
  "forward_profiles =
     [\<lparr>profile_id = ''u1'', interest = Some ''u2''\<rparr>,
      \<lparr>profile_id = ''u2'', interest = Some ''health''\<rparr>]"

text \<open>
  A CategorizedResult that lists health first and has two hits that mention the word, one
  of them in capitals, and one hit that does not.
\<close>

definition tool_buckets :: "(string \<times> hit list) list" where
  "tool_buckets =
     [(''health'', [\<lparr>title = ''B'', snippet = ''Use TOOLS daily''\<rparr>,
                    \<lparr>title = ''C'', snippet = ''Sleep well''\<rparr>]),
      (''productivity'', [\<lparr>title = ''A'', snippet = ''Great tool for focus''\<rparr>]),
      (''creativity'', [])]"

definition tool_items :: "(string \<times> json) list" where
  "tool_items = map (\<lambda>b. (fst b, JList (map hit_json (snd b)))) tool_buckets"

definition example_base :: "(string \<times> json list) list" where
  "example_base =
     [(''productivity'', [JStr ''Great tool for focus'']),
      (''health'', [JStr ''Sleep well'']),
      (''creativity'', [])]"

section \<open>Properties\<close>

subsection \<open>Helper facts on the error plumbing\<close>

lemma and_then_Inr_iff:
  "and_then m f = Inr z \<longleftrightarrow> (\<exists>x. m = Inr x \<and> f x = Inr z)"
  by (cases m) (simp_all add: and_then_def)

lemma traverse_Inr_map:
  "(\<And>x. x \<in> set xs \<Longrightarrow> f x = Inr (g x)) \<Longrightarrow> traverse f xs = Inr (map g xs)"
  by (induction xs) (simp_all add: and_then_def)

lemma traverse_Inl:
  "x \<in> set xs \<Longrightarrow> f x = Inl a \<Longrightarrow> \<exists>b. traverse f xs = Inl b"
  by (induction xs) (auto simp add: and_then_def split: sum.split)

lemma five_views_not_dict:
  "\<not> is_object v \<Longrightarrow> five_views v raw ps = Inl AttributeError"
  by (cases v) (simp_all add: five_views_def and_then_def is_object_def)

subsection \<open>The categorizer\<close>

text \<open>
  C5. On the empty hit sequence \<^verbatim>\<open>grok_process_raw_data\<close> returns the fallback, all three
  labels mapped to empty sequences, whatever the environment is, and does nothing to the
  outside: no request is sent to the classification service.
\<close>

theorem grok_empty_hits_fallback:
  "grok_process_raw_data e [] =
     (Inr (JObj [(''productivity'', JList []), (''health'', JList []), (''creativity'', JList [])]),
      [])"
  by (simp add: grok_process_raw_data_def FALLBACK_def)

text \<open>
  C1, as the code has it. \<^verbatim>\<open>grok_process_raw_data\<close> always returns a value. On hits that
  are not empty, whatever value the service's content parses to is returned unchanged; on
  empty hits, when the service fails and when its content is not JSON, the fallback is
  returned, whose key set is exactly the three labels. So the returned value is the fallback
  or the parsed answer, and its key set is exactly the three labels in those three
  situations and when the parsed answer itself has exactly those keys, and in no other
  case.
\<close>

theorem grok_returns_fallback_or_parsed:
  "(\<exists>v. fst (grok_process_raw_data e raw_data) = Inr v) \<and>
   (\<forall>v. fst (grok_process_raw_data e raw_data) = Inr v \<longrightarrow>
        v = FALLBACK \<or> (raw_data \<noteq> [] \<and> chat_create e (request_for e raw_data) = Parsed v)) \<and>
   (\<forall>v. raw_data \<noteq> [] \<and> chat_create e (request_for e raw_data) = Parsed v \<longrightarrow>
        fst (grok_process_raw_data e raw_data) = Inr v) \<and>
   (raw_data = [] \<or> (\<exists>x. chat_create e (request_for e raw_data) = ChatRaises x) \<or>
      (\<exists>x. chat_create e (request_for e raw_data) = NotJson x) \<longrightarrow>
        fst (grok_process_raw_data e raw_data) = Inr FALLBACK) \<and>
   key_set FALLBACK = Some (set LABELS) \<and>
   (\<forall>v. fst (grok_process_raw_data e raw_data) = Inr v \<longrightarrow>
        (key_set v = Some (set LABELS) \<longleftrightarrow>
           raw_data = [] \<or> (\<exists>x. chat_create e (request_for e raw_data) = ChatRaises x) \<or>
           (\<exists>x. chat_create e (request_for e raw_data) = NotJson x) \<or>
           (\<exists>w. chat_create e (request_for e raw_data) = Parsed w \<and> key_set w = Some (set LABELS))))"
proof -
  have k: "key_set FALLBACK = Some (set LABELS)"
    by (simp add: key_set_def FALLBACK_def LABELS_def)
  have a: "\<exists>v. fst (grok_process_raw_data e raw_data) = Inr v"
    by (simp add: grok_process_raw_data_def split: completion.split)
  have b: "\<forall>v. fst (grok_process_raw_data e raw_data) = Inr v \<longrightarrow>
        v = FALLBACK \<or> (raw_data \<noteq> [] \<and> chat_create e (request_for e raw_data) = Parsed v)"
    by (cases "chat_create e (request_for e raw_data)")
       (auto simp add: grok_process_raw_data_def split: if_splits)
  have c: "\<forall>v. raw_data \<noteq> [] \<and> chat_create e (request_for e raw_data) = Parsed v \<longrightarrow>
        fst (grok_process_raw_data e raw_data) = Inr v"
    by (simp add: grok_process_raw_data_def)
  have d: "raw_data = [] \<or> (\<exists>x. chat_create e (request_for e raw_data) = ChatRaises x) \<or>
      (\<exists>x. chat_create e (request_for e raw_data) = NotJson x) \<longrightarrow>
        fst (grok_process_raw_data e raw_data) = Inr FALLBACK"
    by (auto simp add: grok_process_raw_data_def)
  have f: "\<forall>v. fst (grok_process_raw_data e raw_data) = Inr v \<longrightarrow>
        (key_set v = Some (set LABELS) \<longleftrightarrow>
           raw_data = [] \<or> (\<exists>x. chat_create e (request_for e raw_data) = ChatRaises x) \<or>
           (\<exists>x. chat_create e (request_for e raw_data) = NotJson x) \<or>
           (\<exists>w. chat_create e (request_for e raw_data) = Parsed w \<and> key_set w = Some (set LABELS)))"
    using k
    by (cases "chat_create e (request_for e raw_data)")
       (auto simp add: grok_process_raw_data_def split: if_splits)
  from a b c d k f show ?thesis by (intro conjI)
qed

theorem grok_returns_fallback_or_parsed_witness:
  "fst (grok_process_raw_data
          (example_env (SearchResults []) (Parsed (JObj [(''health'', JList [])]))) example_hits) =
     Inr (JObj [(''health'', JList [])]) \<and>
   chat_create (example_env (SearchResults []) (Parsed (JObj [(''health'', JList [])])))
     (request_for (example_env (SearchResults []) (Parsed (JObj [(''health'', JList [])]))) example_hits) =
     Parsed (JObj [(''health'', JList [])]) \<and>
   fst (grok_process_raw_data
          (example_env (SearchResults []) (ChatRaises (OtherError ''timeout''))) example_hits) =
     Inr FALLBACK \<and>
   fst (grok_process_raw_data
          (example_env (SearchResults []) (NotJson (OtherError ''Expecting value''))) example_hits) =
     Inr FALLBACK \<and>
   key_set (JObj [(''health'', JList []), (''creativity'', JList []), (''productivity'', JList [])]) =
     Some (set LABELS)"
proof -
  let ?v = "JObj [(''health'', JList [])]"
  let ?e = "example_env (SearchResults []) (Parsed ?v)"
  let ?r = "example_env (SearchResults []) (ChatRaises (OtherError ''timeout''))"
  let ?n = "example_env (SearchResults []) (NotJson (OtherError ''Expecting value''))"
  let ?w = "JObj [(''health'', JList []), (''creativity'', JList []), (''productivity'', JList [])]"
  let ?p = "example_env (SearchResults []) (Parsed ?w)"
  note te = grok_returns_fallback_or_parsed [of ?e example_hits]
  note tr = grok_returns_fallback_or_parsed [of ?r example_hits]
  note tn = grok_returns_fallback_or_parsed [of ?n example_hits]
  note tp = grok_returns_fallback_or_parsed [of ?p example_hits]
  have h: "example_hits \<noteq> []" by (simp add: example_hits_def)
  have ce: "chat_create ?e (request_for ?e example_hits) = Parsed ?v"
    by (simp add: example_env_def)
  from te have "\<forall>v. example_hits \<noteq> [] \<and> chat_create ?e (request_for ?e example_hits) = Parsed v \<longrightarrow>
        fst (grok_process_raw_data ?e example_hits) = Inr v"
    by (rule conjunct1 [OF conjunct2 [OF conjunct2]])
  then have "example_hits \<noteq> [] \<and> chat_create ?e (request_for ?e example_hits) = Parsed ?v \<longrightarrow>
        fst (grok_process_raw_data ?e example_hits) = Inr ?v"
    by (rule spec)
  from this conjI [OF h ce] have r: "fst (grok_process_raw_data ?e example_hits) = Inr ?v"
    by (rule mp)
  have n: "?v \<noteq> FALLBACK" by (simp add: FALLBACK_def)
  from te have "\<forall>v. fst (grok_process_raw_data ?e example_hits) = Inr v \<longrightarrow>
        v = FALLBACK \<or> (example_hits \<noteq> [] \<and> chat_create ?e (request_for ?e example_hits) = Parsed v)"
    by (rule conjunct1 [OF conjunct2])
  then have "fst (grok_process_raw_data ?e example_hits) = Inr ?v \<longrightarrow>
        ?v = FALLBACK \<or> (example_hits \<noteq> [] \<and> chat_create ?e (request_for ?e example_hits) = Parsed ?v)"
    by (rule spec)
  from this r
  have "?v = FALLBACK \<or> (example_hits \<noteq> [] \<and> chat_create ?e (request_for ?e example_hits) = Parsed ?v)"
    by (rule mp)
  then have c: "chat_create ?e (request_for ?e example_hits) = Parsed ?v"
  proof
    assume "?v = FALLBACK"
    with n show ?thesis by (rule notE)
  next
    assume "example_hits \<noteq> [] \<and> chat_create ?e (request_for ?e example_hits) = Parsed ?v"
    then show ?thesis by (rule conjunct2)
  qed
  have "example_hits = [] \<or> (\<exists>x. chat_create ?r (request_for ?r example_hits) = ChatRaises x) \<or>
      (\<exists>x. chat_create ?r (request_for ?r example_hits) = NotJson x)"
    by (simp add: example_env_def)
  with tr [THEN conjunct2, THEN conjunct2, THEN conjunct2, THEN conjunct1]
  have fr: "fst (grok_process_raw_data ?r example_hits) = Inr FALLBACK"
    by (rule mp)
  have "example_hits = [] \<or> (\<exists>x. chat_create ?n (request_for ?n example_hits) = ChatRaises x) \<or>
      (\<exists>x. chat_create ?n (request_for ?n example_hits) = NotJson x)"
    by (simp add: example_env_def)
  with tn [THEN conjunct2, THEN conjunct2, THEN conjunct2, THEN conjunct1]
  have fn: "fst (grok_process_raw_data ?n example_hits) = Inr FALLBACK"
    by (rule mp)
  have rp: "fst (grok_process_raw_data ?p example_hits) = Inr ?w"
    by (simp add: grok_process_raw_data_def example_env_def example_hits_def)
  have kw: "key_set ?w = Some (set LABELS)"
    by (simp add: key_set_def LABELS_def insert_commute)
  have cp: "chat_create ?p (request_for ?p example_hits) = Parsed ?w \<and> key_set ?w = Some (set LABELS)"
    using kw by (simp add: example_env_def)
  have rhs: "example_hits = [] \<or> (\<exists>x. chat_create ?p (request_for ?p example_hits) = ChatRaises x) \<or>
           (\<exists>x. chat_create ?p (request_for ?p example_hits) = NotJson x) \<or>
           (\<exists>w. chat_create ?p (request_for ?p example_hits) = Parsed w \<and> key_set w = Some (set LABELS))"
    by (intro disjI2 exI [of _ ?w]) (rule cp)
  from tp [THEN conjunct2, THEN conjunct2, THEN conjunct2, THEN conjunct2, THEN conjunct2]
  have "fst (grok_process_raw_data ?p example_hits) = Inr ?w \<longrightarrow>
        (key_set ?w = Some (set LABELS) \<longleftrightarrow>
           example_hits = [] \<or> (\<exists>x. chat_create ?p (request_for ?p example_hits) = ChatRaises x) \<or>
           (\<exists>x. chat_create ?p (request_for ?p example_hits) = NotJson x) \<or>
           (\<exists>w. chat_create ?p (request_for ?p example_hits) = Parsed w \<and> key_set w = Some (set LABELS)))"
    by (rule spec)
  from this rp have "key_set ?w = Some (set LABELS) \<longleftrightarrow>
           example_hits = [] \<or> (\<exists>x. chat_create ?p (request_for ?p example_hits) = ChatRaises x) \<or>
           (\<exists>x. chat_create ?p (request_for ?p example_hits) = NotJson x) \<or>
           (\<exists>w. chat_create ?p (request_for ?p example_hits) = Parsed w \<and> key_set w = Some (set LABELS))"
    by (rule mp)
  from this rhs have k: "key_set ?w = Some (set LABELS)" by (rule iffD2)
  from r c fr fn k show ?thesis by (intro conjI)
qed

text \<open>
  C1 as stated fails: when the service answers with a JSON object that lacks two of the
  labels and has a key of its own, that object is what the categorizer returns.
\<close>

theorem grok_key_set_counterexample:
  "fst (grok_process_raw_data
          (example_env (SearchResults [])
             (Parsed (JObj [(''productivity'', JList []), (''wellness'', JList [])])))
          example_hits) =
     Inr (JObj [(''productivity'', JList []), (''wellness'', JList [])]) \<and>
   key_set (JObj [(''productivity'', JList []), (''wellness'', JList [])]) \<noteq> Some (set LABELS)"
proof
  show "fst (grok_process_raw_data
          (example_env (SearchResults [])
             (Parsed (JObj [(''productivity'', JList []), (''wellness'', JList [])])))
          example_hits) =
     Inr (JObj [(''productivity'', JList []), (''wellness'', JList [])])"
    by (simp add: grok_process_raw_data_def example_env_def example_hits_def)
next
  have "''wellness'' \<notin> set LABELS" by (simp add: LABELS_def)
  moreover have "''wellness'' \<in> set (map fst [(''productivity'', JList []), (''wellness'', JList [])])"
    by simp
  ultimately have "set (map fst [(''productivity'', JList []), (''wellness'', JList [])]) \<noteq> set LABELS"
    by metis
  then show "key_set (JObj [(''productivity'', JList []), (''wellness'', JList [])]) \<noteq> Some (set LABELS)"
    by (simp add: key_set_def)
qed

subsection \<open>The fetcher\<close>

text \<open>
  C8. \<^verbatim>\<open>web_search\<close> always returns a sequence and never an exception. When the provider
  raises, and when a record of its answer is malformed (it has no title), the result is the
  empty sequence. Otherwise every record is normalized in order: the title as it is, the
  snippet from the body field when the record has one, else from its snippet field, else
  the empty string.
\<close>

theorem web_search_degrades_or_normalizes:
  "(\<exists>hits. fst (web_search e q n) = Inr hits) \<and>
   (ddgs_text e q n = SearchRaises x \<longrightarrow> fst (web_search e q n) = Inr []) \<and>
   (ddgs_text e q n = SearchResults rs \<and> (\<exists>r\<in>set rs. r_title r = None) \<longrightarrow>
      fst (web_search e q n) = Inr []) \<and>
   (ddgs_text e q n = SearchResults rs \<and> (\<forall>r\<in>set rs. r_title r \<noteq> None) \<longrightarrow>
      fst (web_search e q n) =
        Inr (map (\<lambda>r. \<lparr>title = the (r_title r),
                         snippet = (case r_body r of
                                      Some b \<Rightarrow> b
                                    | None \<Rightarrow> (case r_snippet r of Some s \<Rightarrow> s | None \<Rightarrow> ''''))\<rparr>) rs))"
proof (intro conjI impI)
  show "\<exists>hits. fst (web_search e q n) = Inr hits"
    by (simp add: web_search_def Let_def split: sum.split)
next
  assume "ddgs_text e q n = SearchRaises x"
  then show "fst (web_search e q n) = Inr []"
    by (simp add: web_search_def)
next
  assume a: "ddgs_text e q n = SearchResults rs \<and> (\<exists>r\<in>set rs. r_title r = None)"
  from a have d: "ddgs_text e q n = SearchResults rs" by (rule conjunct1)
  from a have "\<exists>r\<in>set rs. r_title r = None" by (rule conjunct2)
  then obtain r where r: "r \<in> set rs" and t: "r_title r = None" ..
  from t have n: "normalize r = Inl (KeyError ''title'')" by (simp add: normalize_def)
  from traverse_Inl [of r rs normalize, OF r n] obtain b where b: "traverse normalize rs = Inl b" ..
  from d b show "fst (web_search e q n) = Inr []" by (simp add: web_search_def)
next
  assume a: "ddgs_text e q n = SearchResults rs \<and> (\<forall>r\<in>set rs. r_title r \<noteq> None)"
  from a have d: "ddgs_text e q n = SearchResults rs" by (rule conjunct1)
  from a have titled: "\<forall>r\<in>set rs. r_title r \<noteq> None" by (rule conjunct2)
  let ?g = "\<lambda>r. \<lparr>title = the (r_title r),
                  snippet = (case r_body r of
                               Some b \<Rightarrow> b
                             | None \<Rightarrow> (case r_snippet r of Some s \<Rightarrow> s | None \<Rightarrow> ''''))\<rparr>"
  have "traverse normalize rs = Inr (map ?g rs)"
  proof (rule traverse_Inr_map [of rs normalize ?g])
    fix r assume "r \<in> set rs"
    with titled have "r_title r \<noteq> None" by (rule bspec)
    then obtain t where "r_title r = Some t" by (cases "r_title r") simp_all
    then show "normalize r = Inr (?g r)" by (simp add: normalize_def)
  qed
  with d show "fst (web_search e q n) = Inr (map ?g rs)" by (simp add: web_search_def)
qed

theorem web_search_degrades_or_normalizes_witness:
  "fst (web_search (example_env (SearchRaises (OtherError ''network down'')) (Parsed JNull)) ''q'' 10) =
     Inr [] \<and>
   fst (web_search
          (example_env
             (SearchResults (example_records @ [\<lparr>r_title = None, r_body = Some ''x'', r_snippet = None\<rparr>]))
             (Parsed JNull)) ''q'' 10) = Inr [] \<and>
   fst (web_search (example_env (SearchResults example_records) (Parsed JNull)) ''q'' 10) =
     Inr [\<lparr>title = ''A'', snippet = ''Great tool for focus''\<rparr>,
          \<lparr>title = ''B'', snippet = ''Sleep well''\<rparr>,
          \<lparr>title = ''C'', snippet = ''''\<rparr>]"
proof (intro conjI)
  let ?x = "OtherError ''network down''"
  let ?e1 = "example_env (SearchRaises ?x) (Parsed JNull)"
  have h: "ddgs_text ?e1 ''q'' 10 = SearchRaises ?x"
    by (simp add: example_env_def)
  from web_search_degrades_or_normalizes [of ?e1 "''q''" 10 ?x "[]"]
  have "ddgs_text ?e1 ''q'' 10 = SearchRaises ?x \<longrightarrow> fst (web_search ?e1 ''q'' 10) = Inr []"
    by (rule conjunct1 [OF conjunct2])
  from this h show "fst (web_search ?e1 ''q'' 10) = Inr []" by (rule mp)
next
  let ?x = "OtherError ''network down''"
  let ?rs = "example_records @ [\<lparr>r_title = None, r_body = Some ''x'', r_snippet = None\<rparr>]"
  let ?e2 = "example_env (SearchResults ?rs) (Parsed JNull)"
  have h: "ddgs_text ?e2 ''q'' 10 = SearchResults ?rs \<and> (\<exists>r\<in>set ?rs. r_title r = None)"
    by (simp add: example_env_def)
  from web_search_degrades_or_normalizes [of ?e2 "''q''" 10 ?x ?rs]
  have "ddgs_text ?e2 ''q'' 10 = SearchResults ?rs \<and> (\<exists>r\<in>set ?rs. r_title r = None) \<longrightarrow>
        fst (web_search ?e2 ''q'' 10) = Inr []"
    by (rule conjunct1 [OF conjunct2 [OF conjunct2]])
  from this h show "fst (web_search ?e2 ''q'' 10) = Inr []" by (rule mp)
next
  let ?x = "OtherError ''network down''"
  let ?e3 = "example_env (SearchResults example_records) (Parsed JNull)"
  let ?g = "\<lambda>r. \<lparr>title = the (r_title r),
                  snippet = (case r_body r of
                               Some b \<Rightarrow> b
                             | None \<Rightarrow> (case r_snippet r of Some s \<Rightarrow> s | None \<Rightarrow> ''''))\<rparr>"
  have h: "ddgs_text ?e3 ''q'' 10 = SearchResults example_records \<and>
        (\<forall>r\<in>set example_records. r_title r \<noteq> None)"
    by (simp add: example_env_def example_records_def)
  from web_search_degrades_or_normalizes [of ?e3 "''q''" 10 ?x example_records]
  have "ddgs_text ?e3 ''q'' 10 = SearchResults example_records \<and>
        (\<forall>r\<in>set example_records. r_title r \<noteq> None) \<longrightarrow>
        fst (web_search ?e3 ''q'' 10) = Inr (map ?g example_records)"
    by (rule conjunct2 [OF conjunct2 [OF conjunct2]])
  from this h have "fst (web_search ?e3 ''q'' 10) = Inr (map ?g example_records)" by (rule mp)
  then show "fst (web_search ?e3 ''q'' 10) =
     Inr [\<lparr>title = ''A'', snippet = ''Great tool for focus''\<rparr>,
          \<lparr>title = ''B'', snippet = ''Sleep well''\<rparr>,
          \<lparr>title = ''C'', snippet = ''''\<rparr>]"
    by (simp add: example_records_def)
qed

subsection \<open>The relay\<close>

text \<open>
  C7. What \<^verbatim>\<open>generate_outputs\<close> returns does not depend on the environment: with a relay
  target or without one, with a delivery that succeeds or one that raises, the same bundle
  of five views is returned (or the same exception of the projection itself). A failed
  delivery therefore neither changes a view nor makes the operation fail.
\<close>

theorem relay_never_changes_the_bundle:
  "fst (generate_outputs e categorized raw_data user_profiles) =
   fst (generate_outputs e' categorized raw_data user_profiles)"
  by (simp add: generate_outputs_def split: sum.split)

subsection \<open>A parsed answer that is not an object\<close>

text \<open>
  C10. Let the search give a non-empty hit sequence and let the service's content parse to
  a JSON value that is not an object. Then \<^verbatim>\<open>grok_process_raw_data\<close> returns that value
  unchanged, \<^verbatim>\<open>generate_outputs\<close> raises on it (the \<^verbatim>\<open>AttributeError\<close> of
  \<^verbatim>\<open>categorized.values()\<close>), and \<^verbatim>\<open>run_automation_cycle\<close> answers every request with an
  error body and status 500.
\<close>

theorem non_object_answer_fails_the_cycle:
  assumes "fst (web_search e QUERY 10) = Inr raw_data" and "raw_data \<noteq> []"
    and "chat_create e (request_for e raw_data) = Parsed v" and "\<not> is_object v"
  shows "fst (grok_process_raw_data e raw_data) = Inr v \<and>
         fst (generate_outputs e v raw_data user_profiles) = Inl AttributeError \<and>
         (\<exists>x. fst (run_automation_cycle e req) = (ErrorBody x, 500))"
proof (intro conjI)
  show g: "fst (grok_process_raw_data e raw_data) = Inr v"
    using assms(2,3) by (simp add: grok_process_raw_data_def)
  have f: "\<And>ps. fst (generate_outputs e v raw_data ps) = Inl AttributeError"
    using five_views_not_dict [OF assms(4)] by (simp add: generate_outputs_def)
  then show "fst (generate_outputs e v raw_data user_profiles) = Inl AttributeError" .
  obtain t1 where w: "web_search e QUERY 10 = (Inr raw_data, t1)"
    using assms(1) by (cases "web_search e QUERY 10") simp
  obtain t2 where g': "grok_process_raw_data e raw_data = (Inr v, t2)"
    using g by (cases "grok_process_raw_data e raw_data") simp
  show "\<exists>x. fst (run_automation_cycle e req) = (ErrorBody x, 500)"
  proof (cases "read_profiles req")
    case (Inl x)
    then show ?thesis by (simp add: run_automation_cycle_def)
  next
    case (Inr ps)
    obtain t3 where "generate_outputs e v raw_data (Some ps) = (Inl AttributeError, t3)"
      using f [of "Some ps"] by (cases "generate_outputs e v raw_data (Some ps)") simp
    with Inr w g' show ?thesis by (simp add: run_automation_cycle_def)
  qed
qed

theorem non_object_answer_fails_the_cycle_witness:
  "fst (grok_process_raw_data (example_env (SearchResults example_records) (Parsed (JList []))) example_hits) =
     Inr (JList []) \<and>
   fst (generate_outputs (example_env (SearchResults example_records) (Parsed (JList [])))
          (JList []) example_hits None) = Inl AttributeError \<and>
   (\<exists>x. fst (run_automation_cycle (example_env (SearchResults example_records) (Parsed (JList [])))
              (Payload None)) = (ErrorBody x, 500))"
proof -
  let ?e = "example_env (SearchResults example_records) (Parsed (JList []))"
  have h1: "fst (web_search ?e QUERY 10) = Inr example_hits"
    by (simp add: web_search_def example_env_def example_records_def example_hits_def
                  normalize_def and_then_def)
  have h2: "example_hits \<noteq> []" by (simp add: example_hits_def)
  have h3: "chat_create ?e (request_for ?e example_hits) = Parsed (JList [])"
    by (simp add: example_env_def)
  have h4: "\<not> is_object (JList [])" by (simp add: is_object_def)
  show ?thesis
    by (rule non_object_answer_fails_the_cycle [OF h1 h2 h3 h4])
qed

subsection \<open>Comprehensions that return\<close>

lemma traverse_Inr_iff:
  "traverse f xs = Inr ys \<longleftrightarrow> list_all2 (\<lambda>x y. f x = Inr y) xs ys"
proof (induction xs arbitrary: ys)
  case Nil
  show ?case by auto
next
  case (Cons x xs)
  show ?case by (simp add: and_then_Inr_iff Cons.IH list_all2_Cons1) blast
qed

lemma filter_m_Inr_iff:
  "filter_m c xs = Inr ys \<longleftrightarrow>
     (\<forall>x\<in>set xs. \<exists>b. c x = Inr b) \<and> ys = filter (\<lambda>x. c x = Inr True) xs"
proof (induction xs arbitrary: ys)
  case Nil
  show ?case by auto
next
  case (Cons x xs)
  show ?case
  proof (cases "c x")
    case (Inl a)
    then show ?thesis by (simp add: and_then_def)
  next
    case (Inr b)
    then show ?thesis by (cases b) (auto simp add: and_then_Inr_iff Cons.IH)
  qed
qed

lemma good_hit_iff:
  "good_hit h \<longleftrightarrow> (\<exists>s. py_getitem h ''snippet'' = Inr (JStr s))"
proof (cases "py_getitem h ''snippet''")
  case (Inl x)
  then show ?thesis by (simp add: good_hit_def)
next
  case (Inr v)
  then show ?thesis by (cases v) (simp_all add: good_hit_def)
qed

lemma good_hit_snippet:
  "good_hit h \<Longrightarrow> py_getitem h ''snippet'' = Inr (snippet_of h)"
  by (auto simp add: good_hit_iff snippet_of_def)

lemma mentions_tool_Inr_iff:
  "mentions_tool h = Inr b \<longleftrightarrow> good_hit h \<and> b = has_tool h"
proof (cases "py_getitem h ''snippet''")
  case (Inl x)
  then show ?thesis by (simp add: mentions_tool_def and_then_def good_hit_def)
next
  case (Inr v)
  then show ?thesis
    by (cases v) (auto simp add: mentions_tool_def and_then_def good_hit_def has_tool_def snippet_of_def)
qed

subsection \<open>The projection on well-shaped buckets\<close>

lemma good_bucket_iter: "good_bucket v \<Longrightarrow> py_iter v = Inr (bucket_hits v)"
  by (cases v) (simp_all add: good_bucket_def bucket_hits_def)

lemma good_bucket_hits: "good_bucket v \<Longrightarrow> list_all good_hit (bucket_hits v)"
  by (cases v) (simp_all add: good_bucket_def bucket_hits_def)

lemma good_bucket_slice:
  "good_bucket v \<Longrightarrow> \<exists>v2. py_slice_to n v = Inr v2 \<and> good_bucket v2 \<and> bucket_hits v2 = take n (bucket_hits v)"
proof (cases v)
  case (JList hs)
  assume "good_bucket v"
  with JList have "list_all good_hit (take n hs)"
    by (simp add: good_bucket_def list_all_iff) (meson in_set_takeD)
  with JList show ?thesis by (simp add: good_bucket_def bucket_hits_def)
qed (simp_all add: good_bucket_def bucket_hits_def)

lemma snippets_of_good: "list_all good_hit hs \<Longrightarrow> snippets_of hs = Inr (map snippet_of hs)"
  unfolding snippets_of_def
  by (rule traverse_Inr_map) (simp add: list_all_iff good_hit_snippet)

lemma filter_m_good:
  "list_all good_hit hs \<Longrightarrow> filter_m mentions_tool hs = Inr (filter has_tool hs)"
proof (induction hs)
  case Nil
  show ?case by simp
next
  case (Cons h hs)
  then have "mentions_tool h = Inr (has_tool h)" by (simp add: mentions_tool_Inr_iff)
  with Cons show ?case by (simp add: and_then_def)
qed

lemma bucket_snippets_good:
  "good_bucket v \<Longrightarrow> bucket_snippets v = Inr (map snippet_of (bucket_hits v))"
  by (simp add: bucket_snippets_def good_bucket_iter and_then_def snippets_of_good good_bucket_hits)

lemma workshop_session_good:
  assumes "good_bucket (snd kv)"
  shows "workshop_session kv = Inr (session_of kv)"
proof -
  from good_bucket_slice [OF assms, of 2] obtain v2 where
    v2: "py_slice_to 2 (snd kv) = Inr v2" "good_bucket v2" "bucket_hits v2 = take 2 (bucket_hits (snd kv))"
    by (elim exE conjE)
  from v2(2) have "bucket_snippets v2 = Inr (map snippet_of (bucket_hits v2))"
    by (rule bucket_snippets_good)
  with v2 show ?thesis by (simp add: workshop_session_def session_of_def and_then_def)
qed

lemma flatten_good:
  assumes "list_all good_bucket vs"
  shows "flatten_values vs = Inr (concat (map bucket_hits vs))"
proof -
  have "traverse py_iter vs = Inr (map bucket_hits vs)"
    using assms by (intro traverse_Inr_map) (simp add: list_all_iff good_bucket_iter)
  then show ?thesis by (simp add: flatten_values_def and_then_def)
qed

lemma tool_hits_good:
  assumes "list_all good_bucket vs"
  shows "tool_hits vs = Inr (filter has_tool (concat (map bucket_hits vs)))"
proof -
  let ?f = "\<lambda>hacks. and_then (py_iter hacks) (filter_m mentions_tool)"
  let ?g = "\<lambda>v. filter has_tool (bucket_hits v)"
  have "traverse ?f vs = Inr (map ?g vs)"
  proof (rule traverse_Inr_map [of vs ?f ?g])
    fix v assume "v \<in> set vs"
    with assms have g: "good_bucket v" by (simp add: list_all_iff)
    then show "?f v = Inr (?g v)"
      by (simp add: good_bucket_iter and_then_def filter_m_good good_bucket_hits)
  qed
  then show ?thesis by (simp add: tool_hits_def and_then_def filter_concat comp_def)
qed

lemma knowledge_base_good:
  assumes "list_all good_bucket (map snd kvs)"
  shows "knowledge_base kvs = Inr (base_knowledge kvs)"
proof -
  let ?f = "\<lambda>kv. and_then (bucket_snippets (snd kv)) (\<lambda>ss. Inr (fst kv, ss))"
  let ?g = "\<lambda>kv. (fst kv, map snippet_of (bucket_hits (snd kv)))"
  have "traverse ?f kvs = Inr (map ?g kvs)"
  proof (rule traverse_Inr_map [of kvs ?f ?g])
    fix kv assume "kv \<in> set kvs"
    with assms have "good_bucket (snd kv)" by (simp add: list_all_iff)
    then show "?f kv = Inr (?g kv)" by (simp add: bucket_snippets_good and_then_def)
  qed
  then show ?thesis by (simp add: knowledge_base_def base_knowledge_def and_then_def)
qed

lemma sessions_good:
  assumes "list_all good_bucket (map snd kvs)"
  shows "traverse workshop_session kvs = Inr (map session_of kvs)"
proof (rule traverse_Inr_map [of kvs workshop_session session_of])
  fix kv assume "kv \<in> set kvs"
  with assms have "good_bucket (snd kv)" by (simp add: list_all_iff)
  then show "workshop_session kv = Inr (session_of kv)" by (rule workshop_session_good)
qed

lemma all_hits_good:
  assumes "list_all good_bucket (map snd kvs)"
  shows "list_all good_hit (all_hits kvs)"
  using assms by (induction kvs) (simp_all add: all_hits_def good_bucket_hits)

lemma personalize_Nil_eq: "(if ps = [] then base else personalize base ps) = personalize base ps"
  by simp

lemma five_views_good:
  assumes g: "list_all good_bucket (map snd kvs)"
  shows "five_views (JObj kvs) raw_data user_profiles = Inr (views_of kvs raw_data user_profiles)"
proof -
  have f: "flatten_values (map snd kvs) = Inr (all_hits kvs)"
    using flatten_good [OF g] by (simp add: all_hits_def comp_def)
  have "list_all good_hit (take 5 (all_hits kvs))"
    using all_hits_good [OF g] by (simp add: list_all_iff) (meson in_set_takeD)
  then have n: "snippets_of (take 5 (all_hits kvs)) = Inr (map snippet_of (take 5 (all_hits kvs)))"
    by (rule snippets_of_good)
  have t: "tool_hits (map snd kvs) = Inr (filter has_tool (all_hits kvs))"
    using tool_hits_good [OF g] by (simp add: all_hits_def comp_def)
  note k = knowledge_base_good [OF g]
  note s = sessions_good [OF g]
  show ?thesis
    unfolding five_views_def views_of_def personalized_def
    by (simp add: and_then_def f n t k s take_map split: option.split)
qed

subsection \<open>A returning projection has well-shaped buckets\<close>

lemma traverse_Inr_each:
  "traverse f xs = Inr ys \<Longrightarrow> x \<in> set xs \<Longrightarrow> \<exists>y. f x = Inr y"
proof (induction xs arbitrary: ys)
  case Nil
  then show ?case by simp
next
  case (Cons a xs)
  from Cons.prems(1) obtain y ys' where a: "f a = Inr y" and r: "traverse f xs = Inr ys'"
    by (auto simp add: and_then_Inr_iff)
  from Cons.prems(2) have "x = a \<or> x \<in> set xs" by simp
  then show ?case
  proof
    assume "x = a"
    with a show ?thesis by simp
  next
    assume "x \<in> set xs"
    with Cons.IH [OF r] show ?thesis .
  qed
qed

lemma not_good_hit_char: "\<not> good_hit (JStr s)"
  by (simp add: good_hit_def)

lemma iter_good_bucket:
  assumes i: "py_iter v = Inr hs" and g: "list_all good_hit hs" and s: "py_slice_to 2 v = Inr v2"
  shows "good_bucket v"
proof (cases v)
  case (JList xs)
  with i g show ?thesis by (simp add: good_bucket_def)
next
  case (JStr str)
  with i have hs: "hs = map (\<lambda>c. JStr [c]) str" by simp
  show ?thesis
  proof (cases str)
    case Nil
    with JStr show ?thesis by (simp add: good_bucket_def)
  next
    case (Cons c cs)
    with hs g have "good_hit (JStr [c])" by simp
    then show ?thesis by (simp add: not_good_hit_char)
  qed
next
  case (JObj kvs)
  with s show ?thesis by simp
next
  case JNull
  with i show ?thesis by simp
next
  case (JBool b)
  with i show ?thesis by simp
next
  case (JNum n)
  with i show ?thesis by simp
qed

lemma tool_step_good:
  assumes "and_then (py_iter v) (filter_m mentions_tool) = Inr ts"
  shows "\<exists>hs. py_iter v = Inr hs \<and> list_all good_hit hs"
proof -
  from assms obtain hs where i: "py_iter v = Inr hs" and f: "filter_m mentions_tool hs = Inr ts"
    by (auto simp add: and_then_Inr_iff)
  from f have "\<forall>h\<in>set hs. \<exists>b. mentions_tool h = Inr b" by (simp add: filter_m_Inr_iff)
  then have "list_all good_hit hs" by (simp add: list_all_iff mentions_tool_Inr_iff)
  with i show ?thesis by simp
qed

lemma session_step_slice:
  assumes "workshop_session kv = Inr s"
  shows "\<exists>v2. py_slice_to 2 (snd kv) = Inr v2"
  using assms by (auto simp add: workshop_session_def and_then_Inr_iff)

lemma five_views_Inr_shape:
  assumes "five_views c raw_data user_profiles = Inr out"
  shows "\<exists>kvs. c = JObj kvs \<and> list_all good_bucket (map snd kvs)"
proof -
  from assms obtain vs where "dict_values c = Inr vs"
    by (auto simp add: five_views_def and_then_Inr_iff)
  then obtain kvs where c: "c = JObj kvs" by (cases c) simp_all
  from assms c obtain tools sessions where
    t: "tool_hits (map snd kvs) = Inr tools" and s: "traverse workshop_session kvs = Inr sessions"
    by (auto simp add: five_views_def and_then_Inr_iff)
  from t obtain tss where
    tr: "traverse (\<lambda>hacks. and_then (py_iter hacks) (filter_m mentions_tool)) (map snd kvs) = Inr tss"
    by (auto simp add: tool_hits_def and_then_Inr_iff)
  have "\<forall>kv\<in>set kvs. good_bucket (snd kv)"
  proof
    fix kv assume m: "kv \<in> set kvs"
    then have "snd kv \<in> set (map snd kvs)" by simp
    from traverse_Inr_each [OF tr this] obtain ts where
      "and_then (py_iter (snd kv)) (filter_m mentions_tool) = Inr ts" ..
    from tool_step_good [OF this] obtain hs where
      i: "py_iter (snd kv) = Inr hs" and g: "list_all good_hit hs" by (elim exE conjE)
    from traverse_Inr_each [OF s m] obtain se where "workshop_session kv = Inr se" ..
    from session_step_slice [OF this] obtain v2 where "py_slice_to 2 (snd kv) = Inr v2" ..
    with i g show "good_bucket (snd kv)" by (rule iter_good_bucket)
  qed
  then have "list_all good_bucket (map snd kvs)" by (simp add: list_all_iff)
  with c show ?thesis by simp
qed

lemma five_views_Inr_iff:
  "five_views c raw_data user_profiles = Inr out \<longleftrightarrow>
     (\<exists>kvs. c = JObj kvs \<and> list_all good_bucket (map snd kvs) \<and>
            out = views_of kvs raw_data user_profiles)"
proof
  assume a: "five_views c raw_data user_profiles = Inr out"
  from five_views_Inr_shape [OF a] obtain kvs where
    c: "c = JObj kvs" and g: "list_all good_bucket (map snd kvs)" by (elim exE conjE)
  from five_views_good [OF g, of raw_data user_profiles] a c
  have "out = views_of kvs raw_data user_profiles" by simp
  with c g show "\<exists>kvs. c = JObj kvs \<and> list_all good_bucket (map snd kvs) \<and>
            out = views_of kvs raw_data user_profiles" by simp
next
  assume "\<exists>kvs. c = JObj kvs \<and> list_all good_bucket (map snd kvs) \<and>
            out = views_of kvs raw_data user_profiles"
  then obtain kvs where c: "c = JObj kvs" and g: "list_all good_bucket (map snd kvs)"
    and o: "out = views_of kvs raw_data user_profiles" by (elim exE conjE)
  from five_views_good [OF g, of raw_data user_profiles] c o
  show "five_views c raw_data user_profiles = Inr out" by simp
qed

subsection \<open>The personalization loop\<close>

lemma personalize_append:
  "personalize bk (xs @ ys) = personalize (personalize bk xs) ys"
  by (induction xs arbitrary: bk) simp_all

lemma personalize_snoc:
  "personalize bk (ps @ [p]) = personalize_one (personalize bk ps) p"
  by (simp add: personalize_append)

lemma personalize_one_other:
  "k \<noteq> profile_id p \<Longrightarrow> map_of (personalize_one bk p) k = map_of bk k"
  by (simp add: personalize_one_def update_conv' split: option.split)

lemma personalize_other:
  "k \<notin> profile_id ` set ps \<Longrightarrow> map_of (personalize bk ps) k = map_of bk k"
proof (induction ps arbitrary: bk)
  case Nil
  show ?case by simp
next
  case (Cons p ps)
  from Cons.prems have a: "k \<noteq> profile_id p" and b: "k \<notin> profile_id ` set ps" by auto
  from Cons.IH [OF b, of "personalize_one bk p"] personalize_one_other [OF a, of bk]
  show ?case by simp
qed

lemma personalize_one_keys:
  "fst ` set (personalize_one bk p) =
     fst ` set bk \<union> (case interest p of
                        None \<Rightarrow> {}
                      | Some i \<Rightarrow> if i \<in> fst ` set bk then {profile_id p} else {})"
proof (cases "interest p")
  case None
  then show ?thesis by (simp add: personalize_one_def)
next
  case (Some i)
  show ?thesis
  proof (cases "map_of bk i")
    case None
    then have "i \<notin> fst ` set bk" by (simp add: map_of_eq_None_iff)
    with None Some show ?thesis by (simp add: personalize_one_def)
  next
    case (Some ss)
    then have "(i, ss) \<in> set bk" by (rule map_of_SomeD)
    then have "i \<in> fst ` set bk" by (rule rev_image_eqI) simp
    with Some \<open>interest p = Some i\<close> show ?thesis
      by (simp add: personalize_one_def dom_update)
  qed
qed

lemma personalize_turn:
  assumes d: "distinct (map profile_id (pre @ p # post))"
    and k: "profile_id p \<notin> fst ` set bk"
  shows "map_of (personalize bk (pre @ p # post)) (profile_id p) =
           (case interest p of None \<Rightarrow> None | Some i \<Rightarrow> map_of (personalize bk pre) i)"
proof -
  from d have npre: "profile_id p \<notin> profile_id ` set pre"
    and npost: "profile_id p \<notin> profile_id ` set post" by auto
  let ?B = "personalize bk pre"
  have e: "personalize bk (pre @ p # post) = personalize (personalize_one ?B p) post"
    by (simp add: personalize_append)
  have a: "map_of (personalize bk (pre @ p # post)) (profile_id p) =
             map_of (personalize_one ?B p) (profile_id p)"
    unfolding e by (rule personalize_other [OF npost])
  from k have "map_of bk (profile_id p) = None" by (simp add: map_of_eq_None_iff)
  with personalize_other [OF npre, of bk] have b: "map_of ?B (profile_id p) = None" by simp
  show ?thesis
  proof (cases "interest p")
    case None
    with a b show ?thesis by (simp add: personalize_one_def)
  next
    case (Some i)
    show ?thesis
    proof (cases "map_of ?B i")
      case None
      with a b Some show ?thesis by (simp add: personalize_one_def)
    next
      case (Some ss)
      with a \<open>interest p = Some i\<close> show ?thesis
        by (simp add: personalize_one_def update_conv')
    qed
  qed
qed

lemma personalize_earlier:
  assumes d: "distinct (map profile_id (pre @ p # post))"
    and q: "q \<in> set pre"
  shows "map_of (personalize bk (pre @ p # post)) (profile_id q) =
           map_of (personalize bk pre) (profile_id q)"
proof -
  from d have a: "profile_id p \<notin> profile_id ` set pre"
    and b: "profile_id ` set pre \<inter> profile_id ` set post = {}" by auto
  from q have m: "profile_id q \<in> profile_id ` set pre" by (rule imageI)
  from m a have "profile_id q \<noteq> profile_id p" by metis
  moreover from m b have "profile_id q \<notin> profile_id ` set post" by blast
  ultimately have "profile_id q \<notin> profile_id ` set (p # post)" by simp
  from personalize_other [OF this, of "personalize bk pre"]
  show ?thesis by (simp only: personalize_append)
qed

lemma assigned_ids_Nil: "assigned_ids bk [] = {}"
  by (simp add: assigned_ids_def)

lemma assigned_ids_snoc:
  "assigned_ids bk (ps @ [p]) =
     assigned_ids bk ps \<union>
       (case interest p of
          None \<Rightarrow> {}
        | Some i \<Rightarrow> if i \<in> fst ` set (personalize bk ps) then {profile_id p} else {})"
proof -
  let ?M = "\<lambda>qs j. \<exists>i. interest (qs ! j) = Some i \<and> i \<in> fst ` set (personalize bk (take j qs))"
  have old: "\<And>j. j < length ps \<Longrightarrow> (ps @ [p]) ! j = ps ! j \<and> take j (ps @ [p]) = take j ps"
    by (simp add: nth_append)
  have new: "(ps @ [p]) ! length ps = p \<and> take (length ps) (ps @ [p]) = ps"
    by simp
  have "assigned_ids bk (ps @ [p]) =
          {profile_id (ps ! j) | j. j < length ps \<and> ?M ps j} \<union>
          {profile_id p | j. j = length ps \<and> ?M (ps @ [p]) (length ps)}"
  proof (rule set_eqI)
    fix x
    show "x \<in> assigned_ids bk (ps @ [p]) \<longleftrightarrow>
          x \<in> {profile_id (ps ! j) | j. j < length ps \<and> ?M ps j} \<union>
              {profile_id p | j. j = length ps \<and> ?M (ps @ [p]) (length ps)}"
    proof
      assume "x \<in> assigned_ids bk (ps @ [p])"
      then obtain j where j: "j < length (ps @ [p])" and x: "x = profile_id ((ps @ [p]) ! j)"
        and mj: "?M (ps @ [p]) j" unfolding assigned_ids_def by blast
      from j have "j < length ps \<or> j = length ps" by auto
      then show "x \<in> {profile_id (ps ! j) | j. j < length ps \<and> ?M ps j} \<union>
              {profile_id p | j. j = length ps \<and> ?M (ps @ [p]) (length ps)}"
      proof
        assume l: "j < length ps"
        with old [OF l] x mj have "x = profile_id (ps ! j) \<and> ?M ps j" by simp
        with l show ?thesis by blast
      next
        assume l: "j = length ps"
        with new x mj have "x = profile_id p \<and> ?M (ps @ [p]) (length ps)" by simp
        then show ?thesis by blast
      qed
    next
      assume "x \<in> {profile_id (ps ! j) | j. j < length ps \<and> ?M ps j} \<union>
              {profile_id p | j. j = length ps \<and> ?M (ps @ [p]) (length ps)}"
      then show "x \<in> assigned_ids bk (ps @ [p])"
      proof
        assume "x \<in> {profile_id (ps ! j) | j. j < length ps \<and> ?M ps j}"
        then obtain j where l: "j < length ps" and x: "x = profile_id (ps ! j)" and mj: "?M ps j"
          by blast
        from old [OF l] x mj have "x = profile_id ((ps @ [p]) ! j) \<and> ?M (ps @ [p]) j" by simp
        moreover from l have "j < length (ps @ [p])" by simp
        ultimately show ?thesis unfolding assigned_ids_def by blast
      next
        assume "x \<in> {profile_id p | j. j = length ps \<and> ?M (ps @ [p]) (length ps)}"
        then have x: "x = profile_id p" and mj: "?M (ps @ [p]) (length ps)" by blast+
        from x new have "x = profile_id ((ps @ [p]) ! length ps)" by simp
        moreover have "length ps < length (ps @ [p])" by simp
        ultimately show ?thesis using mj unfolding assigned_ids_def by blast
      qed
    qed
  qed
  also have "{profile_id (ps ! j) | j. j < length ps \<and> ?M ps j} = assigned_ids bk ps"
    by (simp add: assigned_ids_def)
  also have "{profile_id p | j. j = length ps \<and> ?M (ps @ [p]) (length ps)} =
      (case interest p of
          None \<Rightarrow> {}
        | Some i \<Rightarrow> if i \<in> fst ` set (personalize bk ps) then {profile_id p} else {})"
    by (cases "interest p") (simp_all)
  finally show ?thesis .
qed

lemma personalize_keys:
  "fst ` set (personalize bk ps) = fst ` set bk \<union> assigned_ids bk ps"
proof (induction ps rule: rev_induct)
  case Nil
  show ?case by (simp add: assigned_ids_Nil)
next
  case (snoc p ps)
  have "fst ` set (personalize bk (ps @ [p])) = fst ` set (personalize_one (personalize bk ps) p)"
    by (simp add: personalize_snoc)
  also have "\<dots> = fst ` set (personalize bk ps) \<union>
       (case interest p of
          None \<Rightarrow> {}
        | Some i \<Rightarrow> if i \<in> fst ` set (personalize bk ps) then {profile_id p} else {})"
    by (rule personalize_one_keys)
  also have "\<dots> = fst ` set bk \<union> assigned_ids bk (ps @ [p])"
    unfolding assigned_ids_snoc snoc.IH by (simp add: Un_assoc)
  finally show ?case .
qed

subsection \<open>The base knowledge, and well-typed results\<close>

lemma update_fresh:
  "k \<notin> fst ` set al \<Longrightarrow> AList.update k v al = al @ [(k, v)]"
  by (induction al) auto

lemma foldl_update_distinct:
  "distinct (map fst (acc @ xs)) \<Longrightarrow>
   foldl (\<lambda>d ks. AList.update (fst ks) (snd ks) d) acc xs = acc @ xs"
proof (induction xs arbitrary: acc)
  case Nil
  show ?case by simp
next
  case (Cons x xs)
  from Cons.prems have f: "fst x \<notin> fst ` set acc" by auto
  from Cons.prems have d: "distinct (map fst ((acc @ [x]) @ xs))" by simp
  have "AList.update (fst x) (snd x) acc = acc @ [x]" using update_fresh [OF f, of "snd x"] by simp
  with Cons.IH [OF d] show ?case by simp
qed

lemma base_knowledge_distinct:
  assumes "distinct (map fst kvs)"
  shows "base_knowledge kvs = map (\<lambda>kv. (fst kv, map snippet_of (bucket_hits (snd kv)))) kvs"
proof -
  let ?xs = "map (\<lambda>kv. (fst kv, map snippet_of (bucket_hits (snd kv)))) kvs"
  have "map fst ?xs = map fst kvs" by (simp add: comp_def)
  with assms have "distinct (map fst ?xs)" by (simp only:)
  then have "distinct (map fst ([] @ ?xs))" by (simp only: append_Nil)
  from foldl_update_distinct [OF this] show ?thesis by (simp add: base_knowledge_def)
qed

lemma map_of_base_knowledge:
  assumes "distinct (map fst kvs)"
  shows "map_of (base_knowledge kvs) k =
           map_option (\<lambda>v. map snippet_of (bucket_hits v)) (map_of kvs k)"
  unfolding base_knowledge_distinct [OF assms]
  by (induction kvs) simp_all

lemma keys_base_knowledge:
  assumes "distinct (map fst kvs)"
  shows "map fst (base_knowledge kvs) = map fst kvs"
  unfolding base_knowledge_distinct [OF assms] by (simp add: comp_def)

lemma snippet_of_hit_json: "snippet_of (hit_json h) = JStr (snippet h)"
  by (simp add: snippet_of_def hit_json_def)

lemma good_hit_json: "good_hit (hit_json h)"
  by (simp add: good_hit_def hit_json_def)

lemma has_tool_hit_json:
  "has_tool (hit_json h) = is_substring ''tool'' (map lower_char (snippet h))"
  by (simp add: has_tool_def snippet_of_hit_json)

lemma typed_buckets_good:
  "list_all good_bucket (map snd (map (\<lambda>b. (fst b, JList (map hit_json (snd b)))) buckets))"
  by (induction buckets) (simp_all add: good_bucket_def list_all_iff good_hit_json)

lemma typed_all_hits:
  "all_hits (map (\<lambda>b. (fst b, JList (map hit_json (snd b)))) buckets) =
     map hit_json (concat (map snd buckets))"
  by (induction buckets) (simp_all add: all_hits_def bucket_hits_def)

subsection \<open>Substrings\<close>

lemma is_substring_iff:
  "is_substring ns hs \<longleftrightarrow> (\<exists>pre post. hs = pre @ ns @ post)"
proof (induction hs)
  case Nil
  show ?case by auto
next
  case (Cons h hs)
  show ?case
  proof
    assume "is_substring ns (h # hs)"
    then have "take (length ns) (h # hs) = ns \<or> is_substring ns hs" by simp
    then show "\<exists>pre post. h # hs = pre @ ns @ post"
    proof
      assume t: "take (length ns) (h # hs) = ns"
      have "h # hs = take (length ns) (h # hs) @ drop (length ns) (h # hs)"
        by (simp only: append_take_drop_id)
      with t have "h # hs = [] @ ns @ drop (length ns) (h # hs)" by simp
      then show ?thesis by blast
    next
      assume "is_substring ns hs"
      with Cons.IH obtain pre post where "hs = pre @ ns @ post" by auto
      then have "h # hs = (h # pre) @ ns @ post" by simp
      then show ?thesis by blast
    qed
  next
    assume "\<exists>pre post. h # hs = pre @ ns @ post"
    then obtain pre post where e: "h # hs = pre @ ns @ post" by (elim exE)
    show "is_substring ns (h # hs)"
    proof (cases pre)
      case Nil
      with e have "h # hs = ns @ post" by simp
      then have "take (length ns) (h # hs) = ns" by simp
      then show ?thesis by simp
    next
      case (Cons a pre')
      with e have "hs = pre' @ ns @ post" by simp
      then have "\<exists>pre post. hs = pre @ ns @ post" by blast
      with Cons.IH have "is_substring ns hs" by simp
      then show ?thesis by simp
    qed
  qed
qed

lemma lowered_substring_iff:
  "is_substring word (map lower_char s) \<longleftrightarrow>
     (\<exists>before w after. s = before @ w @ after \<and> map lower_char w = word)"
proof
  assume "is_substring word (map lower_char s)"
  then obtain pre post where "map lower_char s = pre @ (word @ post)"
    unfolding is_substring_iff by blast
  then obtain b r where s: "s = b @ r" and "word @ post = map lower_char r"
    unfolding map_eq_append_conv by blast
  then have "map lower_char r = word @ post" by simp
  then obtain w a where r: "r = w @ a" and "word = map lower_char w"
    unfolding map_eq_append_conv by blast
  then have w: "map lower_char w = word" by simp
  from s r have "s = b @ w @ a" by simp
  with w show "\<exists>before w after. s = before @ w @ after \<and> map lower_char w = word" by blast
next
  assume "\<exists>before w after. s = before @ w @ after \<and> map lower_char w = word"
  then obtain b w a where s: "s = b @ w @ a" and w: "map lower_char w = word"
    by blast
  then have "map lower_char s = map lower_char b @ word @ map lower_char a" by simp
  then have "\<exists>pre post. map lower_char s = pre @ word @ post" by blast
  then show "is_substring word (map lower_char s)" by (simp only: is_substring_iff)
qed

lemma lower_char_t: "lower_char c = CHR ''t'' \<longleftrightarrow> c \<in> {CHR ''t'', CHR ''T''}"
  by (auto simp add: lower_char_def split: if_splits)

lemma lower_char_o: "lower_char c = CHR ''o'' \<longleftrightarrow> c \<in> {CHR ''o'', CHR ''O''}"
  by (auto simp add: lower_char_def split: if_splits)

lemma lower_char_l: "lower_char c = CHR ''l'' \<longleftrightarrow> c \<in> {CHR ''l'', CHR ''L''}"
  by (auto simp add: lower_char_def split: if_splits)

lemma lowered_tool:
  "map lower_char w = ''tool'' \<longleftrightarrow>
     (\<exists>a b c d. w = [a, b, c, d] \<and> a \<in> {CHR ''t'', CHR ''T''} \<and> b \<in> {CHR ''o'', CHR ''O''} \<and>
                c \<in> {CHR ''o'', CHR ''O''} \<and> d \<in> {CHR ''l'', CHR ''L''})"
proof -
  have "map lower_char w = ''tool'' \<longleftrightarrow>
     (\<exists>a b c d. w = [a, b, c, d] \<and> lower_char a = CHR ''t'' \<and> lower_char b = CHR ''o'' \<and>
                lower_char c = CHR ''o'' \<and> lower_char d = CHR ''l'')"
    by (simp only: map_eq_Cons_conv map_is_Nil_conv) blast
  then show ?thesis by (simp only: lower_char_t lower_char_o lower_char_l)
qed

lemma tool_in_any_case_iff:
  "is_substring ''tool'' (map lower_char s) \<longleftrightarrow> tool_in_any_case s"
proof
  assume "is_substring ''tool'' (map lower_char s)"
  then obtain before w after where s: "s = before @ w @ after" and "map lower_char w = ''tool''"
    unfolding lowered_substring_iff by (elim exE conjE)
  then obtain a b c d where w: "w = [a, b, c, d]" and l: "a \<in> {CHR ''t'', CHR ''T''}"
    "b \<in> {CHR ''o'', CHR ''O''}" "c \<in> {CHR ''o'', CHR ''O''}" "d \<in> {CHR ''l'', CHR ''L''}"
    unfolding lowered_tool by (elim exE conjE)
  from s w have "s = before @ [a, b, c, d] @ after" by simp
  with l show "tool_in_any_case s"
    unfolding tool_in_any_case_def
    by (intro exI [of _ before] exI [of _ a] exI [of _ b] exI [of _ c] exI [of _ d]
              exI [of _ after] conjI)
next
  assume "tool_in_any_case s"
  then obtain before a b c d after where s: "s = before @ [a, b, c, d] @ after"
    and l: "a \<in> {CHR ''t'', CHR ''T''}" "b \<in> {CHR ''o'', CHR ''O''}"
           "c \<in> {CHR ''o'', CHR ''O''}" "d \<in> {CHR ''l'', CHR ''L''}"
    unfolding tool_in_any_case_def by (elim exE conjE)
  from l have "\<exists>a' b' c' d'. [a, b, c, d] = [a', b', c', d'] \<and> a' \<in> {CHR ''t'', CHR ''T''} \<and>
      b' \<in> {CHR ''o'', CHR ''O''} \<and> c' \<in> {CHR ''o'', CHR ''O''} \<and> d' \<in> {CHR ''l'', CHR ''L''}"
    by (intro exI [of _ a] exI [of _ b] exI [of _ c] exI [of _ d] conjI refl)
  then have "map lower_char [a, b, c, d] = ''tool''" by (simp only: lowered_tool)
  with s have "\<exists>before w after. s = before @ w @ after \<and> map lower_char w = ''tool''"
    by (intro exI [of _ before] exI [of _ "[a, b, c, d]"] exI [of _ after] conjI)
  then show "is_substring ''tool'' (map lower_char s)" by (simp only: lowered_substring_iff)
qed

lemma has_tool_iff:
  "has_tool h \<longleftrightarrow> (\<exists>s. py_getitem h ''snippet'' = Inr (JStr s) \<and> tool_in_any_case s)"
proof (cases "py_getitem h ''snippet''")
  case (Inl x)
  then show ?thesis by (simp add: has_tool_def snippet_of_def)
next
  case (Inr v)
  then show ?thesis
    by (cases v) (simp_all add: has_tool_def snippet_of_def tool_in_any_case_iff)
qed

subsection \<open>The newsletter\<close>

lemma generate_outputs_fst:
  "fst (generate_outputs e c raw_data user_profiles) = five_views c raw_data user_profiles"
  by (simp add: generate_outputs_def split: sum.split)

lemma generate_outputs_Inr_iff:
  "fst (generate_outputs e c raw_data user_profiles) = Inr out \<longleftrightarrow>
     (\<exists>kvs. c = JObj kvs \<and> list_all good_bucket (map snd kvs) \<and>
            out = views_of kvs raw_data user_profiles)"
  by (simp only: generate_outputs_fst five_views_Inr_iff)

lemma generate_outputs_typed:
  "fst (generate_outputs e (categorized_json buckets) raw_data user_profiles) =
     Inr (views_of (map (\<lambda>b. (fst b, JList (map hit_json (snd b)))) buckets) raw_data user_profiles)"
  unfolding generate_outputs_fst categorized_json_def
  by (rule five_views_good) (rule typed_buckets_good)

lemma label_order_flatten:
  assumes "map fst kvs = LABELS"
  shows "concat (map (bucket_of (JObj kvs)) LABELS) = all_hits kvs"
proof -
  from assms have "length kvs = 3" by (metis LABELS_def length_map length_Cons list.size(3) numeral_3_eq_3)
  then obtain a b c where k: "kvs = [a, b, c]"
    by (metis (no_types) length_0_conv length_Suc_conv numeral_3_eq_3)
  with assms have f: "fst a = ''productivity''" "fst b = ''health''" "fst c = ''creativity''"
    by (simp_all add: LABELS_def)
  obtain ka va kb vb kc vc where abc: "a = (ka, va)" "b = (kb, vb)" "c = (kc, vc)"
    by (cases a, cases b, cases c) simp
  with f have keys: "ka = ''productivity''" "kb = ''health''" "kc = ''creativity''" by simp_all
  show ?thesis
    by (simp add: k abc keys bucket_of_def LABELS_def all_hits_def)
qed

text \<open>
  C4, as the code has it. Whenever \<^verbatim>\<open>generate_outputs\<close> returns, the categorized value is a
  mapping and the newsletter is the snippets of the first five hits of the flattening of
  all its buckets, taken in the key order of the mapping itself (not in a fixed label
  order) and then in the order of each bucket; so it has at most five entries and at most
  as many as there are hits, and it is the newsletter of the specification when the keys
  are productivity, health, creativity in this order. On every CategorizedResult (lists of title and snippet
  records) the function does return, and the newsletter is the snippets of the first five
  hits of the buckets in the order in which they are listed.
\<close>

theorem newsletter_first_five_in_key_order:
  "(fst (generate_outputs e c raw_data user_profiles) = Inr out \<longrightarrow>
      (\<exists>kvs. c = JObj kvs \<and>
             newsletter out = map snippet_of (take 5 (all_hits kvs)) \<and>
             length (newsletter out) \<le> 5 \<and>
             length (newsletter out) \<le> length (all_hits kvs) \<and>
             (map fst kvs = LABELS \<longrightarrow> newsletter out = spec_newsletter c))) \<and>
   (\<exists>out'. fst (generate_outputs e (categorized_json buckets) raw_data user_profiles) = Inr out' \<and>
           newsletter out' = map (\<lambda>h. JStr (snippet h)) (take 5 (concat (map snd buckets))))"
proof (intro conjI impI)
  assume "fst (generate_outputs e c raw_data user_profiles) = Inr out"
  then obtain kvs where c: "c = JObj kvs" and o: "out = views_of kvs raw_data user_profiles"
    unfolding generate_outputs_Inr_iff by blast
  from o have n: "newsletter out = map snippet_of (take 5 (all_hits kvs))"
    by (simp add: views_of_def)
  then have "length (newsletter out) \<le> 5 \<and> length (newsletter out) \<le> length (all_hits kvs)"
    by simp
  then have l1: "length (newsletter out) \<le> 5" and l2: "length (newsletter out) \<le> length (all_hits kvs)"
    by (rule conjunct1, rule conjunct2)
  have s: "map fst kvs = LABELS \<longrightarrow> newsletter out = spec_newsletter c"
  proof
    assume "map fst kvs = LABELS"
    then have "concat (map (bucket_of (JObj kvs)) LABELS) = all_hits kvs"
      by (rule label_order_flatten)
    with n c show "newsletter out = spec_newsletter c" by (simp add: spec_newsletter_def)
  qed
  from c n l1 l2 s show "\<exists>kvs. c = JObj kvs \<and>
             newsletter out = map snippet_of (take 5 (all_hits kvs)) \<and>
             length (newsletter out) \<le> 5 \<and>
             length (newsletter out) \<le> length (all_hits kvs) \<and>
             (map fst kvs = LABELS \<longrightarrow> newsletter out = spec_newsletter c)"
    by (intro exI [of _ kvs] conjI)
next
  let ?kvs = "map (\<lambda>b. (fst b, JList (map hit_json (snd b)))) buckets"
  let ?out = "views_of ?kvs raw_data user_profiles"
  have "newsletter ?out = map (\<lambda>h. JStr (snippet h)) (take 5 (concat (map snd buckets)))"
    by (simp add: views_of_def typed_all_hits take_map snippet_of_hit_json comp_def)
  with generate_outputs_typed [of e buckets raw_data user_profiles]
  show "\<exists>out'. fst (generate_outputs e (categorized_json buckets) raw_data user_profiles) = Inr out' \<and>
           newsletter out' = map (\<lambda>h. JStr (snippet h)) (take 5 (concat (map snd buckets)))"
    by blast
qed

subsection \<open>The workshops\<close>

text \<open>
  C3, as the code has it. Whenever \<^verbatim>\<open>generate_outputs\<close> returns, the workshops view has one
  session per key of the categorized mapping, in the mapping's key order, with that key as
  its theme and the first two snippets of its bucket as materials (so at most two); it has
  exactly three sessions when the keys are exactly productivity, health, creativity. On
  every CategorizedResult the function does return, and a bucket without hits still has
  its session, with empty materials.
\<close>

theorem workshops_one_session_per_key:
  "(fst (generate_outputs e c raw_data user_profiles) = Inr out \<longrightarrow>
      (\<exists>kvs. c = JObj kvs \<and>
             workshops out =
               map (\<lambda>kv. \<lparr>theme = fst kv, materials = map snippet_of (take 2 (bucket_hits (snd kv)))\<rparr>) kvs \<and>
             map theme (workshops out) = map fst kvs \<and>
             length (workshops out) = length kvs \<and>
             (\<forall>s\<in>set (workshops out). length (materials s) \<le> 2) \<and>
             (map fst kvs = LABELS \<longrightarrow> length (workshops out) = 3))) \<and>
   (\<exists>out'. fst (generate_outputs e (categorized_json buckets) raw_data user_profiles) = Inr out' \<and>
           workshops out' =
             map (\<lambda>b. \<lparr>theme = fst b, materials = map (\<lambda>h. JStr (snippet h)) (take 2 (snd b))\<rparr>) buckets \<and>
           (\<forall>b\<in>set buckets. snd b = [] \<longrightarrow> \<lparr>theme = fst b, materials = []\<rparr> \<in> set (workshops out')))"
proof (intro conjI impI)
  assume "fst (generate_outputs e c raw_data user_profiles) = Inr out"
  then obtain kvs where c: "c = JObj kvs" and o: "out = views_of kvs raw_data user_profiles"
    unfolding generate_outputs_Inr_iff by blast
  from o have w: "workshops out =
      map (\<lambda>kv. \<lparr>theme = fst kv, materials = map snippet_of (take 2 (bucket_hits (snd kv)))\<rparr>) kvs"
    by (simp add: views_of_def session_of_def)
  from w have t: "map theme (workshops out) = map fst kvs" by (simp add: comp_def)
  from w have l: "length (workshops out) = length kvs" by simp
  from w have m: "\<forall>s\<in>set (workshops out). length (materials s) \<le> 2" by auto
  have "map fst kvs = LABELS \<longrightarrow> length (workshops out) = 3"
  proof
    assume "map fst kvs = LABELS"
    then have "length (map fst kvs) = length LABELS" by (rule arg_cong)
    then have "length kvs = 3" by (simp add: LABELS_def)
    with l show "length (workshops out) = 3" by simp
  qed
  with c w t l m show "\<exists>kvs. c = JObj kvs \<and>
             workshops out =
               map (\<lambda>kv. \<lparr>theme = fst kv, materials = map snippet_of (take 2 (bucket_hits (snd kv)))\<rparr>) kvs \<and>
             map theme (workshops out) = map fst kvs \<and>
             length (workshops out) = length kvs \<and>
             (\<forall>s\<in>set (workshops out). length (materials s) \<le> 2) \<and>
             (map fst kvs = LABELS \<longrightarrow> length (workshops out) = 3)"
    by (intro exI [of _ kvs] conjI)
next
  let ?kvs = "map (\<lambda>b. (fst b, JList (map hit_json (snd b)))) buckets"
  let ?out = "views_of ?kvs raw_data user_profiles"
  have w: "workshops ?out =
      map (\<lambda>b. \<lparr>theme = fst b, materials = map (\<lambda>h. JStr (snippet h)) (take 2 (snd b))\<rparr>) buckets"
    by (simp add: views_of_def session_of_def bucket_hits_def take_map snippet_of_hit_json comp_def)
  have "\<forall>b\<in>set buckets. snd b = [] \<longrightarrow> \<lparr>theme = fst b, materials = []\<rparr> \<in> set (workshops ?out)"
  proof (intro ballI impI)
    fix b assume b: "b \<in> set buckets" and "snd b = []"
    then have "\<lparr>theme = fst b, materials = []\<rparr> =
       (\<lambda>b. \<lparr>theme = fst b, materials = map (\<lambda>h. JStr (snippet h)) (take 2 (snd b))\<rparr>) b" by simp
    with b show "\<lparr>theme = fst b, materials = []\<rparr> \<in> set (workshops ?out)"
      unfolding w set_map by (rule image_eqI [rotated])
  qed
  with w generate_outputs_typed [of e buckets raw_data user_profiles]
  show "\<exists>out'. fst (generate_outputs e (categorized_json buckets) raw_data user_profiles) = Inr out' \<and>
           workshops out' =
             map (\<lambda>b. \<lparr>theme = fst b, materials = map (\<lambda>h. JStr (snippet h)) (take 2 (snd b))\<rparr>) buckets \<and>
           (\<forall>b\<in>set buckets. snd b = [] \<longrightarrow> \<lparr>theme = fst b, materials = []\<rparr> \<in> set (workshops out'))"
    by (intro exI [of _ ?out] conjI)
qed

subsection \<open>The tool vault\<close>

text \<open>
  C6, as the code has it. Whenever \<^verbatim>\<open>generate_outputs\<close> returns, the tool vault is the hits
  of the flattening, whole, whose snippet is a string that contains \<^verbatim>\<open>tool\<close> in any case of
  its letters, where the flattening takes the buckets in the key order of the mapping
  itself (not in a fixed label order) and then in the order of each bucket; in particular
  every entry has such a snippet, and the view is the tool vault of the specification when
  the keys are productivity, health, creativity in this order. On every CategorizedResult
  the function does return, and the view is exactly the hits, in the order in which the
  buckets are listed, whose snippet contains the word in any case.
\<close>

theorem tool_vault_keeps_hits_mentioning_tool:
  "(fst (generate_outputs e c raw_data user_profiles) = Inr out \<longrightarrow>
      (\<exists>kvs. c = JObj kvs \<and>
             tool_vault out =
               filter (\<lambda>h. \<exists>s. py_getitem h ''snippet'' = Inr (JStr s) \<and> tool_in_any_case s)
                 (all_hits kvs) \<and>
             (\<forall>h\<in>set (tool_vault out).
                \<exists>s. py_getitem h ''snippet'' = Inr (JStr s) \<and> tool_in_any_case s) \<and>
             (map fst kvs = LABELS \<longrightarrow> tool_vault out = spec_tool_vault c))) \<and>
   (\<exists>out'. fst (generate_outputs e (categorized_json buckets) raw_data user_profiles) = Inr out' \<and>
           tool_vault out' =
             map hit_json (filter (\<lambda>h. tool_in_any_case (snippet h)) (concat (map snd buckets))))"
proof (intro conjI impI)
  let ?P = "\<lambda>h. \<exists>s. py_getitem h ''snippet'' = Inr (JStr s) \<and> tool_in_any_case s"
  have P: "has_tool = ?P" by (rule ext) (rule has_tool_iff)
  assume "fst (generate_outputs e c raw_data user_profiles) = Inr out"
  then obtain kvs where c: "c = JObj kvs" and o: "out = views_of kvs raw_data user_profiles"
    unfolding generate_outputs_Inr_iff by blast
  from o have t: "tool_vault out = filter ?P (all_hits kvs)"
    by (simp only: views_of_def outputs.simps P)
  then have m: "\<forall>h\<in>set (tool_vault out). ?P h" by simp
  have s: "map fst kvs = LABELS \<longrightarrow> tool_vault out = spec_tool_vault c"
  proof
    assume "map fst kvs = LABELS"
    then have "concat (map (bucket_of (JObj kvs)) LABELS) = all_hits kvs"
      by (rule label_order_flatten)
    with t c show "tool_vault out = spec_tool_vault c" by (simp only: spec_tool_vault_def)
  qed
  from c t m s show "\<exists>kvs. c = JObj kvs \<and> tool_vault out = filter ?P (all_hits kvs) \<and>
      (\<forall>h\<in>set (tool_vault out). ?P h) \<and>
      (map fst kvs = LABELS \<longrightarrow> tool_vault out = spec_tool_vault c)"
    by (intro exI [of _ kvs] conjI)
next
  let ?kvs = "map (\<lambda>b. (fst b, JList (map hit_json (snd b)))) buckets"
  let ?out = "views_of ?kvs raw_data user_profiles"
  have "has_tool \<circ> hit_json = (\<lambda>h. tool_in_any_case (snippet h))"
    by (rule ext) (simp add: has_tool_hit_json tool_in_any_case_iff)
  then have t: "tool_vault ?out =
      map hit_json (filter (\<lambda>h. tool_in_any_case (snippet h)) (concat (map snd buckets)))"
    by (simp add: views_of_def typed_all_hits filter_map)
  with generate_outputs_typed [of e buckets raw_data user_profiles]
  show "\<exists>out'. fst (generate_outputs e (categorized_json buckets) raw_data user_profiles) = Inr out' \<and>
           tool_vault out' =
             map hit_json (filter (\<lambda>h. tool_in_any_case (snippet h)) (concat (map snd buckets)))"
    by (intro exI [of _ ?out] conjI)
qed

subsection \<open>The coaching view\<close>

lemma coaching_bot_views:
  "coaching_bot (views_of kvs raw_data (Some ps)) = personalize (base_knowledge kvs) ps"
  by (simp add: views_of_def personalized_def)

text \<open>
  C9. The coaching view is the result of running the profiles, in order, over the base
  knowledge. Running one more profile \<open>p\<close> after \<open>ps\<close> looks its interest up in the mapping
  as \<open>ps\<close> have left it: when the interest is a key there, \<open>p\<close>'s id is set to that key's
  value, otherwise nothing changes. The keys after \<open>ps\<close> are the base keys and the ids of
  the profiles that were assigned. When \<open>p\<close>'s id is already a key (a label, or the id of an
  earlier profile), no key is added and the value at that key is replaced.
\<close>

theorem profiles_scan_the_growing_mapping:
  "(fst (generate_outputs e c raw_data (Some ps)) = Inr out \<longrightarrow>
      (\<exists>kvs. c = JObj kvs \<and> coaching_bot out = personalize (base_knowledge kvs) ps)) \<and>
   personalize bk (ps @ [p]) =
     (case interest p of
        None \<Rightarrow> personalize bk ps
      | Some i \<Rightarrow>
          (case map_of (personalize bk ps) i of
             None \<Rightarrow> personalize bk ps
           | Some ss \<Rightarrow> AList.update (profile_id p) ss (personalize bk ps))) \<and>
   fst ` set (personalize bk ps) = fst ` set bk \<union> assigned_ids bk ps \<and>
   (interest p = Some i \<and> map_of (personalize bk ps) i = Some ss \<and>
    profile_id p \<in> fst ` set (personalize bk ps) \<longrightarrow>
      map fst (personalize bk (ps @ [p])) = map fst (personalize bk ps) \<and>
      map_of (personalize bk (ps @ [p])) (profile_id p) = Some ss)"
proof (intro conjI impI)
  assume "fst (generate_outputs e c raw_data (Some ps)) = Inr out"
  then obtain kvs where c: "c = JObj kvs" and o: "out = views_of kvs raw_data (Some ps)"
    unfolding generate_outputs_Inr_iff by blast
  from o have "coaching_bot out = personalize (base_knowledge kvs) ps"
    by (simp only: coaching_bot_views)
  with c show "\<exists>kvs. c = JObj kvs \<and> coaching_bot out = personalize (base_knowledge kvs) ps"
    by (intro exI [of _ kvs] conjI)
next
  show "personalize bk (ps @ [p]) =
     (case interest p of
        None \<Rightarrow> personalize bk ps
      | Some i \<Rightarrow>
          (case map_of (personalize bk ps) i of
             None \<Rightarrow> personalize bk ps
           | Some ss \<Rightarrow> AList.update (profile_id p) ss (personalize bk ps)))"
    by (simp only: personalize_snoc personalize_one_def)
next
  show "fst ` set (personalize bk ps) = fst ` set bk \<union> assigned_ids bk ps"
    by (rule personalize_keys)
next
  assume a: "interest p = Some i \<and> map_of (personalize bk ps) i = Some ss \<and>
    profile_id p \<in> fst ` set (personalize bk ps)"
  then have s: "personalize bk (ps @ [p]) = AList.update (profile_id p) ss (personalize bk ps)"
    by (simp add: personalize_snoc personalize_one_def)
  from a have "profile_id p \<in> set (map fst (personalize bk ps))" by simp
  then show "map fst (personalize bk (ps @ [p])) = map fst (personalize bk ps)"
    unfolding s by (simp only: update_keys if_True)
next
  assume a: "interest p = Some i \<and> map_of (personalize bk ps) i = Some ss \<and>
    profile_id p \<in> fst ` set (personalize bk ps)"
  then have s: "personalize bk (ps @ [p]) = AList.update (profile_id p) ss (personalize bk ps)"
    by (simp add: personalize_snoc personalize_one_def)
  show "map_of (personalize bk (ps @ [p])) (profile_id p) = Some ss"
    unfolding s by (simp add: update_conv')
qed

text \<open>
  C2, as the code has it. Let the ids of the profiles be pairwise distinct and different
  from every key of the categorized mapping, and let \<open>p\<close> be a profile of the list, after
  the profiles \<open>pre\<close> and before the profiles \<open>post\<close>. Then, whenever \<^verbatim>\<open>generate_outputs\<close>
  returns, the coaching view has an entry for \<open>p\<close>'s id exactly when \<open>p\<close>'s interest is a key
  of the categorized mapping (one of the three labels, for a mapping with those keys) or
  the id of an earlier profile that has an entry. So the equivalence of the specification
  holds for \<open>p\<close> exactly when its interest is not the id of an earlier profile that has an
  entry; whatever the other profiles are, it holds for a profile whose interest is the id
  of no earlier profile. When the interest is a key of the categorized mapping, the entry
  is the snippet list of the bucket that the interest names; when it is the id of an
  earlier profile that has an entry, the entry is that profile's entry.
\<close>

theorem profile_entry_iff_interest_is_a_key:
  assumes ok: "fst (generate_outputs e (JObj kvs) raw_data (Some (pre @ p # post))) = Inr out"
    and dk: "distinct (map fst kvs)"
    and dp: "distinct (map profile_id (pre @ p # post))"
    and nk: "profile_id ` set (pre @ p # post) \<inter> fst ` set kvs = {}"
  shows "(profile_id p \<in> fst ` set (coaching_bot out) \<longleftrightarrow>
            (\<exists>i. interest p = Some i \<and>
                 (i \<in> fst ` set kvs \<or>
                  (\<exists>q\<in>set pre. i = profile_id q \<and> profile_id q \<in> fst ` set (coaching_bot out))))) \<and>
         ((profile_id p \<in> fst ` set (coaching_bot out) \<longleftrightarrow>
             (\<exists>i. interest p = Some i \<and> i \<in> fst ` set kvs)) \<longleftrightarrow>
          \<not> (\<exists>q\<in>set pre. interest p = Some (profile_id q) \<and>
                 profile_id q \<in> fst ` set (coaching_bot out))) \<and>
         (\<forall>i v. interest p = Some i \<and> map_of kvs i = Some v \<longrightarrow>
            map_of (coaching_bot out) (profile_id p) = Some (map snippet_of (bucket_hits v))) \<and>
         (\<forall>q\<in>set pre. interest p = Some (profile_id q) \<and>
                 profile_id q \<in> fst ` set (coaching_bot out) \<longrightarrow>
            map_of (coaching_bot out) (profile_id p) = map_of (coaching_bot out) (profile_id q))"
proof -
  let ?ps = "pre @ p # post"
  from ok obtain kvs' where "JObj kvs = JObj kvs'" and "out = views_of kvs' raw_data (Some ?ps)"
    unfolding generate_outputs_Inr_iff by blast
  then have o: "out = views_of kvs raw_data (Some ?ps)" by simp
  let ?bk = "base_knowledge kvs"
  let ?B = "personalize ?bk pre"
  let ?F = "coaching_bot out"
  from o have cb: "?F = personalize ?bk ?ps" by (simp only: coaching_bot_views)
  have "fst ` set ?bk = set (map fst ?bk)" by simp
  also have "\<dots> = fst ` set kvs" by (simp only: keys_base_knowledge [OF dk]) simp
  finally have keys: "fst ` set ?bk = fst ` set kvs" .
  have mem: "\<And>k. k \<in> fst ` set ?F \<longleftrightarrow> map_of ?F k \<noteq> None"
    by (simp add: map_of_eq_None_iff)
  have kmem: "\<And>k. k \<in> fst ` set kvs \<longleftrightarrow> map_of ?bk k \<noteq> None"
    unfolding keys [symmetric] by (simp add: map_of_eq_None_iff)
  have look: "\<And>i. map_of ?bk i = map_option (\<lambda>v. map snippet_of (bucket_hits v)) (map_of kvs i)"
    by (rule map_of_base_knowledge [OF dk])
  from nk have pk: "profile_id p \<notin> fst ` set ?bk" unfolding keys by auto
  have turn: "map_of ?F (profile_id p) =
                (case interest p of None \<Rightarrow> None | Some i \<Rightarrow> map_of ?B i)"
    unfolding cb by (rule personalize_turn [OF dp pk])
  have earlier: "\<And>q. q \<in> set pre \<Longrightarrow> map_of ?F (profile_id q) = map_of ?B (profile_id q)"
    unfolding cb by (rule personalize_earlier [OF dp])
  have fresh: "\<And>i. i \<notin> profile_id ` set pre \<Longrightarrow> map_of ?B i = map_of ?bk i"
    by (rule personalize_other)
  have apart: "\<And>i. i \<in> fst ` set kvs \<Longrightarrow> i \<notin> profile_id ` set pre"
  proof
    fix i assume "i \<in> fst ` set kvs" and "i \<in> profile_id ` set pre"
    then have "i \<in> profile_id ` set ?ps \<inter> fst ` set kvs" by (simp add: image_Un)
    with nk show False by simp
  qed
  have at_turn: "\<And>i. map_of ?B i \<noteq> None \<longleftrightarrow>
      i \<in> fst ` set kvs \<or> (\<exists>q\<in>set pre. i = profile_id q \<and> profile_id q \<in> fst ` set ?F)"
  proof -
    fix i
    show "map_of ?B i \<noteq> None \<longleftrightarrow>
      i \<in> fst ` set kvs \<or> (\<exists>q\<in>set pre. i = profile_id q \<and> profile_id q \<in> fst ` set ?F)"
    proof (cases "i \<in> profile_id ` set pre")
      case False
      then have ne: "\<not> (\<exists>q\<in>set pre. i = profile_id q \<and> profile_id q \<in> fst ` set ?F)"
        by (simp add: image_iff)
      from fresh [OF False] kmem [of i] have "map_of ?B i \<noteq> None \<longleftrightarrow> i \<in> fst ` set kvs"
        by (simp only:)
      with ne show ?thesis by metis
    next
      case True
      then obtain q where q: "q \<in> set pre" and i: "i = profile_id q"
        by (rule imageE)
      from True apart [of i] have n: "i \<notin> fst ` set kvs" by metis
      show ?thesis
      proof
        assume "map_of ?B i \<noteq> None"
        with earlier [OF q] i have "map_of ?F (profile_id q) \<noteq> None" by simp
        then have "profile_id q \<in> fst ` set ?F" by (rule mem [THEN iffD2])
        with q i have "\<exists>q\<in>set pre. i = profile_id q \<and> profile_id q \<in> fst ` set ?F"
          by (intro bexI [of _ q] conjI)
        then show "i \<in> fst ` set kvs \<or>
            (\<exists>q\<in>set pre. i = profile_id q \<and> profile_id q \<in> fst ` set ?F)" by (rule disjI2)
      next
        assume "i \<in> fst ` set kvs \<or>
            (\<exists>q\<in>set pre. i = profile_id q \<and> profile_id q \<in> fst ` set ?F)"
        with n have "\<exists>q\<in>set pre. i = profile_id q \<and> profile_id q \<in> fst ` set ?F" by simp
        then obtain r where r: "r \<in> set pre" and ir: "i = profile_id r"
          and e: "profile_id r \<in> fst ` set ?F" by (elim bexE conjE)
        from e have "map_of ?F (profile_id r) \<noteq> None" by (rule mem [THEN iffD1])
        with earlier [OF r] ir show "map_of ?B i \<noteq> None" by simp
      qed
    qed
  qed
  have first: "profile_id p \<in> fst ` set ?F \<longleftrightarrow>
            (\<exists>i. interest p = Some i \<and>
                 (i \<in> fst ` set kvs \<or>
                  (\<exists>q\<in>set pre. i = profile_id q \<and> profile_id q \<in> fst ` set ?F)))"
  proof (cases "interest p")
    case None
    with turn mem [of "profile_id p"] show ?thesis by simp
  next
    case (Some i)
    with turn have "map_of ?F (profile_id p) \<noteq> None \<longleftrightarrow> map_of ?B i \<noteq> None" by simp
    with at_turn [of i] mem [of "profile_id p"] Some show ?thesis by simp
  qed
  have exact: "(profile_id p \<in> fst ` set ?F \<longleftrightarrow>
             (\<exists>i. interest p = Some i \<and> i \<in> fst ` set kvs)) \<longleftrightarrow>
          \<not> (\<exists>q\<in>set pre. interest p = Some (profile_id q) \<and> profile_id q \<in> fst ` set ?F)"
  proof (cases "interest p")
    case None
    with first show ?thesis by simp
  next
    case (Some i)
    have x: "i \<in> fst ` set kvs \<Longrightarrow>
               \<not> (\<exists>q\<in>set pre. i = profile_id q \<and> profile_id q \<in> fst ` set ?F)"
    proof
      assume a: "i \<in> fst ` set kvs"
        and "\<exists>q\<in>set pre. i = profile_id q \<and> profile_id q \<in> fst ` set ?F"
      then obtain q where "q \<in> set pre" and "i = profile_id q" by (elim bexE conjE)
      then have "i \<in> profile_id ` set pre" by simp
      with apart [OF a] show False by (rule notE)
    qed
    let ?K = "i \<in> fst ` set kvs"
    let ?E = "\<exists>q\<in>set pre. i = profile_id q \<and> profile_id q \<in> fst ` set ?F"
    from first Some have f: "profile_id p \<in> fst ` set ?F \<longleftrightarrow> ?K \<or> ?E" by simp
    from x have "?K \<longrightarrow> \<not> ?E" by (rule impI)
    with f have "(profile_id p \<in> fst ` set ?F \<longleftrightarrow> ?K) \<longleftrightarrow> \<not> ?E" by metis
    with Some show ?thesis by simp
  qed
  have entry: "\<forall>i v. interest p = Some i \<and> map_of kvs i = Some v \<longrightarrow>
            map_of ?F (profile_id p) = Some (map snippet_of (bucket_hits v))"
  proof (intro allI impI)
    fix i v assume a: "interest p = Some i \<and> map_of kvs i = Some v"
    then have "(i, v) \<in> set kvs" by (simp add: map_of_SomeD)
    then have "i \<in> fst ` set kvs" by (rule rev_image_eqI) simp
    from fresh [OF apart [OF this]] have "map_of ?B i = map_of ?bk i" .
    with turn a look [of i]
    show "map_of ?F (profile_id p) = Some (map snippet_of (bucket_hits v))" by simp
  qed
  have copy: "\<forall>q\<in>set pre. interest p = Some (profile_id q) \<and> profile_id q \<in> fst ` set ?F \<longrightarrow>
            map_of ?F (profile_id p) = map_of ?F (profile_id q)"
  proof (intro ballI impI)
    fix q assume q: "q \<in> set pre"
      and a: "interest p = Some (profile_id q) \<and> profile_id q \<in> fst ` set ?F"
    from turn a have "map_of ?F (profile_id p) = map_of ?B (profile_id q)" by simp
    with earlier [OF q] show "map_of ?F (profile_id p) = map_of ?F (profile_id q)" by simp
  qed
  from first exact entry copy show ?thesis by (intro conjI)
qed

subsection \<open>The views on the examples\<close>

lemma example_json: "categorized_json example_buckets = JObj example_items"
  by (simp add: categorized_json_def example_items_def)

lemma example_ok:
  "fst (generate_outputs e (JObj example_items) raw_data ups) = Inr (views_of example_items raw_data ups)"
  using generate_outputs_typed [of e example_buckets raw_data ups]
  by (simp only: example_json example_items_def)

lemma example_all_hits:
  "all_hits example_items =
     [JObj [(''title'', JStr ''A''), (''snippet'', JStr ''Great tool for focus'')],
      JObj [(''title'', JStr ''B''), (''snippet'', JStr ''Sleep well'')]]"
  by (simp add: all_hits_def example_items_def example_buckets_def bucket_hits_def hit_json_def)

lemma example_newsletter:
  "newsletter (views_of example_items [] None) = [JStr ''Great tool for focus'', JStr ''Sleep well'']"
  by (simp add: views_of_def example_all_hits snippet_of_def)

theorem newsletter_first_five_in_key_order_witness:
  "fst (generate_outputs quiet_env (JObj example_items) [] None) = Inr (views_of example_items [] None) \<and>
   (\<exists>kvs. JObj example_items = JObj kvs \<and>
       newsletter (views_of example_items [] None) = map snippet_of (take 5 (all_hits kvs)) \<and>
       length (newsletter (views_of example_items [] None)) \<le> 5 \<and>
       length (newsletter (views_of example_items [] None)) \<le> length (all_hits kvs)) \<and>
   newsletter (views_of example_items [] None) = [JStr ''Great tool for focus'', JStr ''Sleep well'']"
proof (intro conjI)
  show h: "fst (generate_outputs quiet_env (JObj example_items) [] None) =
             Inr (views_of example_items [] None)"
    by (rule example_ok)
  from newsletter_first_five_in_key_order
         [of quiet_env "JObj example_items" "[]" None "views_of example_items [] None" "[]"]
  have "fst (generate_outputs quiet_env (JObj example_items) [] None) =
          Inr (views_of example_items [] None) \<longrightarrow>
        (\<exists>kvs. JObj example_items = JObj kvs \<and>
           newsletter (views_of example_items [] None) = map snippet_of (take 5 (all_hits kvs)) \<and>
           length (newsletter (views_of example_items [] None)) \<le> 5 \<and>
           length (newsletter (views_of example_items [] None)) \<le> length (all_hits kvs) \<and>
           (map fst kvs = LABELS \<longrightarrow>
              newsletter (views_of example_items [] None) = spec_newsletter (JObj example_items)))"
    by (rule conjunct1)
  from this h have "\<exists>kvs. JObj example_items = JObj kvs \<and>
           newsletter (views_of example_items [] None) = map snippet_of (take 5 (all_hits kvs)) \<and>
           length (newsletter (views_of example_items [] None)) \<le> 5 \<and>
           length (newsletter (views_of example_items [] None)) \<le> length (all_hits kvs) \<and>
           (map fst kvs = LABELS \<longrightarrow>
              newsletter (views_of example_items [] None) = spec_newsletter (JObj example_items))"
    by (rule mp)
  then obtain kvs where
    "JObj example_items = JObj kvs" and
    "newsletter (views_of example_items [] None) = map snippet_of (take 5 (all_hits kvs))" and
    "length (newsletter (views_of example_items [] None)) \<le> 5" and
    "length (newsletter (views_of example_items [] None)) \<le> length (all_hits kvs)"
    by (elim exE conjE)
  then show "\<exists>kvs. JObj example_items = JObj kvs \<and>
       newsletter (views_of example_items [] None) = map snippet_of (take 5 (all_hits kvs)) \<and>
       length (newsletter (views_of example_items [] None)) \<le> 5 \<and>
       length (newsletter (views_of example_items [] None)) \<le> length (all_hits kvs)"
    by (intro exI [of _ kvs] conjI)
  show "newsletter (views_of example_items [] None) = [JStr ''Great tool for focus'', JStr ''Sleep well'']"
    by (rule example_newsletter)
qed

lemma swapped_ok:
  "fst (generate_outputs e (JObj swapped_items) raw_data ups) = Inr (views_of swapped_items raw_data ups)"
  using generate_outputs_typed [of e swapped_buckets raw_data ups]
  by (simp only: categorized_json_def swapped_items_def)

text \<open>
  C4 as stated fails: when the mapping lists health before productivity, the newsletter
  starts with the health hit, while the fixed label order would put the productivity hit
  first.
\<close>

theorem newsletter_label_order_counterexample:
  "map_sum id newsletter (fst (generate_outputs quiet_env (JObj swapped_items) [] None)) =
     Inr [JStr ''Sleep well'', JStr ''Great tool for focus''] \<and>
   spec_newsletter (JObj swapped_items) = [JStr ''Great tool for focus'', JStr ''Sleep well'']"
proof
  have "newsletter (views_of swapped_items [] None) = [JStr ''Sleep well'', JStr ''Great tool for focus'']"
    by (simp add: views_of_def all_hits_def swapped_items_def swapped_buckets_def bucket_hits_def
                  hit_json_def snippet_of_def)
  then show "map_sum id newsletter (fst (generate_outputs quiet_env (JObj swapped_items) [] None)) =
     Inr [JStr ''Sleep well'', JStr ''Great tool for focus'']"
    by (simp add: swapped_ok)
next
  show "spec_newsletter (JObj swapped_items) = [JStr ''Great tool for focus'', JStr ''Sleep well'']"
    by (simp add: spec_newsletter_def bucket_of_def LABELS_def swapped_items_def swapped_buckets_def
                  bucket_hits_def hit_json_def snippet_of_def)
qed

lemma renamed_ok:
  "fst (generate_outputs e (JObj renamed_items) raw_data ups) = Inr (views_of renamed_items raw_data ups)"
proof -
  have "list_all good_bucket (map snd renamed_items)"
    by (simp add: renamed_items_def good_bucket_def)
  then have "five_views (JObj renamed_items) raw_data ups = Inr (views_of renamed_items raw_data ups)"
    by (rule five_views_good)
  then show ?thesis by (simp only: generate_outputs_fst)
qed

text \<open>
  C3 as stated fails: on a mapping with the two keys productivity and wellness the view
  has two sessions, one of them for a key that is not a label.
\<close>

theorem workshops_three_sessions_counterexample:
  "map_sum id (\<lambda>out. map theme (workshops out))
     (fst (generate_outputs quiet_env (JObj renamed_items) [] None)) =
     Inr [''productivity'', ''wellness'']"
proof -
  have "map theme (workshops (views_of renamed_items [] None)) = [''productivity'', ''wellness'']"
    by (simp add: views_of_def session_of_def renamed_items_def)
  then show ?thesis by (simp add: renamed_ok)
qed

lemma example_workshops:
  "workshops (views_of example_items [] None) =
     [\<lparr>theme = ''productivity'', materials = [JStr ''Great tool for focus'']\<rparr>,
      \<lparr>theme = ''health'', materials = [JStr ''Sleep well'']\<rparr>,
      \<lparr>theme = ''creativity'', materials = []\<rparr>]"
  by (simp add: views_of_def session_of_def example_items_def example_buckets_def bucket_hits_def
                hit_json_def snippet_of_def)

theorem workshops_one_session_per_key_witness:
  "fst (generate_outputs quiet_env (JObj example_items) [] None) = Inr (views_of example_items [] None) \<and>
   (\<exists>kvs. JObj example_items = JObj kvs \<and>
       workshops (views_of example_items [] None) =
         map (\<lambda>kv. \<lparr>theme = fst kv, materials = map snippet_of (take 2 (bucket_hits (snd kv)))\<rparr>) kvs \<and>
       map theme (workshops (views_of example_items [] None)) = map fst kvs \<and>
       length (workshops (views_of example_items [] None)) = length kvs) \<and>
   workshops (views_of example_items [] None) =
     [\<lparr>theme = ''productivity'', materials = [JStr ''Great tool for focus'']\<rparr>,
      \<lparr>theme = ''health'', materials = [JStr ''Sleep well'']\<rparr>,
      \<lparr>theme = ''creativity'', materials = []\<rparr>]"
proof (intro conjI)
  let ?out = "views_of example_items [] None"
  show h: "fst (generate_outputs quiet_env (JObj example_items) [] None) = Inr ?out"
    by (rule example_ok)
  from workshops_one_session_per_key [of quiet_env "JObj example_items" "[]" None ?out "[]"]
  have "fst (generate_outputs quiet_env (JObj example_items) [] None) = Inr ?out \<longrightarrow>
      (\<exists>kvs. JObj example_items = JObj kvs \<and>
             workshops ?out =
               map (\<lambda>kv. \<lparr>theme = fst kv, materials = map snippet_of (take 2 (bucket_hits (snd kv)))\<rparr>) kvs \<and>
             map theme (workshops ?out) = map fst kvs \<and>
             length (workshops ?out) = length kvs \<and>
             (\<forall>s\<in>set (workshops ?out). length (materials s) \<le> 2) \<and>
             (map fst kvs = LABELS \<longrightarrow> length (workshops ?out) = 3))"
    by (rule conjunct1)
  from this h have "\<exists>kvs. JObj example_items = JObj kvs \<and>
             workshops ?out =
               map (\<lambda>kv. \<lparr>theme = fst kv, materials = map snippet_of (take 2 (bucket_hits (snd kv)))\<rparr>) kvs \<and>
             map theme (workshops ?out) = map fst kvs \<and>
             length (workshops ?out) = length kvs \<and>
             (\<forall>s\<in>set (workshops ?out). length (materials s) \<le> 2) \<and>
             (map fst kvs = LABELS \<longrightarrow> length (workshops ?out) = 3)"
    by (rule mp)
  then obtain kvs where
    "JObj example_items = JObj kvs" and
    "workshops ?out =
       map (\<lambda>kv. \<lparr>theme = fst kv, materials = map snippet_of (take 2 (bucket_hits (snd kv)))\<rparr>) kvs" and
    "map theme (workshops ?out) = map fst kvs" and
    "length (workshops ?out) = length kvs"
    by (elim exE conjE)
  then show "\<exists>kvs. JObj example_items = JObj kvs \<and>
       workshops ?out =
         map (\<lambda>kv. \<lparr>theme = fst kv, materials = map snippet_of (take 2 (bucket_hits (snd kv)))\<rparr>) kvs \<and>
       map theme (workshops ?out) = map fst kvs \<and>
       length (workshops ?out) = length kvs"
    by (intro exI [of _ kvs] conjI)
  show "workshops ?out =
     [\<lparr>theme = ''productivity'', materials = [JStr ''Great tool for focus'']\<rparr>,
      \<lparr>theme = ''health'', materials = [JStr ''Sleep well'']\<rparr>,
      \<lparr>theme = ''creativity'', materials = []\<rparr>]"
    by (rule example_workshops)
qed

lemma example_tool_vault:
  "tool_vault (views_of example_items [] None) =
     [JObj [(''title'', JStr ''A''), (''snippet'', JStr ''Great tool for focus'')]]"
  by (simp add: views_of_def example_all_hits has_tool_def snippet_of_def lower_char_def)

lemma tool_upper_case: "tool_in_any_case ''Use TOOLS daily''"
  unfolding tool_in_any_case_def
  by (rule exI [of _ "''Use ''"], rule exI [of _ "CHR ''T''"], rule exI [of _ "CHR ''O''"],
      rule exI [of _ "CHR ''O''"], rule exI [of _ "CHR ''L''"], rule exI [of _ "''S daily''"])
     simp

lemma tool_lower_case: "tool_in_any_case ''Great tool for focus''"
  unfolding tool_in_any_case_def
  by (rule exI [of _ "''Great ''"], rule exI [of _ "CHR ''t''"], rule exI [of _ "CHR ''o''"],
      rule exI [of _ "CHR ''o''"], rule exI [of _ "CHR ''l''"], rule exI [of _ "'' for focus''"])
     simp

lemma tool_absent: "\<not> tool_in_any_case ''Sleep well''"
  by (simp add: tool_in_any_case_iff [symmetric] lower_char_def)

lemma tool_ok:
  "fst (generate_outputs e (JObj tool_items) raw_data ups) = Inr (views_of tool_items raw_data ups)"
  using generate_outputs_typed [of e tool_buckets raw_data ups]
  by (simp only: categorized_json_def tool_items_def)

theorem tool_vault_keeps_hits_mentioning_tool_witness:
  "fst (generate_outputs quiet_env (JObj example_items) [] None) = Inr (views_of example_items [] None) \<and>
   tool_vault (views_of example_items [] None) =
     filter (\<lambda>h. \<exists>s. py_getitem h ''snippet'' = Inr (JStr s) \<and> tool_in_any_case s)
       (all_hits example_items) \<and>
   tool_vault (views_of example_items [] None) = spec_tool_vault (JObj example_items) \<and>
   tool_vault (views_of example_items [] None) =
     [JObj [(''title'', JStr ''A''), (''snippet'', JStr ''Great tool for focus'')]] \<and>
   (\<exists>out'. fst (generate_outputs quiet_env (categorized_json tool_buckets) [] None) = Inr out' \<and>
       tool_vault out' =
         [JObj [(''title'', JStr ''B''), (''snippet'', JStr ''Use TOOLS daily'')],
          JObj [(''title'', JStr ''A''), (''snippet'', JStr ''Great tool for focus'')]])"
proof -
  let ?out = "views_of example_items [] None"
  let ?P = "\<lambda>h. \<exists>s. py_getitem h ''snippet'' = Inr (JStr s) \<and> tool_in_any_case s"
  note T = tool_vault_keeps_hits_mentioning_tool
             [of quiet_env "JObj example_items" "[]" None ?out tool_buckets]
  have h: "fst (generate_outputs quiet_env (JObj example_items) [] None) = Inr ?out"
    by (rule example_ok)
  from T have "fst (generate_outputs quiet_env (JObj example_items) [] None) = Inr ?out \<longrightarrow>
      (\<exists>kvs. JObj example_items = JObj kvs \<and>
             tool_vault ?out = filter ?P (all_hits kvs) \<and>
             (\<forall>h\<in>set (tool_vault ?out). ?P h) \<and>
             (map fst kvs = LABELS \<longrightarrow> tool_vault ?out = spec_tool_vault (JObj example_items)))"
    by (rule conjunct1)
  from this h have "\<exists>kvs. JObj example_items = JObj kvs \<and>
             tool_vault ?out = filter ?P (all_hits kvs) \<and>
             (\<forall>h\<in>set (tool_vault ?out). ?P h) \<and>
             (map fst kvs = LABELS \<longrightarrow> tool_vault ?out = spec_tool_vault (JObj example_items))"
    by (rule mp)
  then obtain kvs where k: "JObj example_items = JObj kvs"
    and f: "tool_vault ?out = filter ?P (all_hits kvs)"
    and l: "map fst kvs = LABELS \<longrightarrow> tool_vault ?out = spec_tool_vault (JObj example_items)"
    by (elim exE conjE)
  from k have e: "kvs = example_items" by simp
  from f have a: "tool_vault ?out = filter ?P (all_hits example_items)" by (simp only: e)
  have "map fst example_items = LABELS"
    by (simp add: example_items_def example_buckets_def LABELS_def)
  with l have b: "tool_vault ?out = spec_tool_vault (JObj example_items)"
    unfolding e by (rule mp)
  have c: "tool_vault ?out =
      [JObj [(''title'', JStr ''A''), (''snippet'', JStr ''Great tool for focus'')]]"
    by (rule example_tool_vault)
  from T have "\<exists>out'. fst (generate_outputs quiet_env (categorized_json tool_buckets) [] None) = Inr out' \<and>
           tool_vault out' =
             map hit_json (filter (\<lambda>h. tool_in_any_case (snippet h)) (concat (map snd tool_buckets)))"
    by (rule conjunct2)
  then obtain out' where
    o: "fst (generate_outputs quiet_env (categorized_json tool_buckets) [] None) = Inr out'"
    and t: "tool_vault out' =
             map hit_json (filter (\<lambda>h. tool_in_any_case (snippet h)) (concat (map snd tool_buckets)))"
    by (elim exE conjE)
  from t have "tool_vault out' =
         [JObj [(''title'', JStr ''B''), (''snippet'', JStr ''Use TOOLS daily'')],
          JObj [(''title'', JStr ''A''), (''snippet'', JStr ''Great tool for focus'')]]"
    by (simp add: tool_buckets_def tool_upper_case tool_lower_case tool_absent hit_json_def)
  with o have d: "\<exists>out'. fst (generate_outputs quiet_env (categorized_json tool_buckets) [] None) = Inr out' \<and>
       tool_vault out' =
         [JObj [(''title'', JStr ''B''), (''snippet'', JStr ''Use TOOLS daily'')],
          JObj [(''title'', JStr ''A''), (''snippet'', JStr ''Great tool for focus'')]]"
    by (intro exI [of _ out'] conjI)
  from h a b c d show ?thesis by (intro conjI)
qed

text \<open>
  C6 as stated fails: when the mapping lists health before productivity, the tool vault
  starts with the health hit (kept although its snippet has the word in capitals), while
  the flattening in the fixed label order would put the productivity hit first.
\<close>

theorem tool_vault_label_order_counterexample:
  "map_sum id tool_vault (fst (generate_outputs quiet_env (JObj tool_items) [] None)) =
     Inr [JObj [(''title'', JStr ''B''), (''snippet'', JStr ''Use TOOLS daily'')],
          JObj [(''title'', JStr ''A''), (''snippet'', JStr ''Great tool for focus'')]] \<and>
   spec_tool_vault (JObj tool_items) =
     [JObj [(''title'', JStr ''A''), (''snippet'', JStr ''Great tool for focus'')],
      JObj [(''title'', JStr ''B''), (''snippet'', JStr ''Use TOOLS daily'')]]"
proof
  have "tool_vault (views_of tool_items [] None) =
     [JObj [(''title'', JStr ''B''), (''snippet'', JStr ''Use TOOLS daily'')],
      JObj [(''title'', JStr ''A''), (''snippet'', JStr ''Great tool for focus'')]]"
    by (simp add: views_of_def all_hits_def tool_items_def tool_buckets_def bucket_hits_def
                  hit_json_def has_tool_def snippet_of_def lower_char_def)
  then show "map_sum id tool_vault (fst (generate_outputs quiet_env (JObj tool_items) [] None)) =
     Inr [JObj [(''title'', JStr ''B''), (''snippet'', JStr ''Use TOOLS daily'')],
          JObj [(''title'', JStr ''A''), (''snippet'', JStr ''Great tool for focus'')]]"
    by (simp add: tool_ok)
next
  have "spec_tool_vault (JObj tool_items) =
          filter has_tool (concat (map (bucket_of (JObj tool_items)) LABELS))"
    by (simp only: spec_tool_vault_def has_tool_iff [symmetric])
  then show "spec_tool_vault (JObj tool_items) =
     [JObj [(''title'', JStr ''A''), (''snippet'', JStr ''Great tool for focus'')],
      JObj [(''title'', JStr ''B''), (''snippet'', JStr ''Use TOOLS daily'')]]"
    by (simp add: bucket_of_def LABELS_def tool_items_def tool_buckets_def bucket_hits_def
                  hit_json_def has_tool_def snippet_of_def lower_char_def)
qed

lemma example_base_knowledge: "base_knowledge example_items = example_base"
  by (simp add: base_knowledge_def example_items_def example_buckets_def bucket_hits_def
                hit_json_def snippet_of_def example_base_def)

lemma example_personalized:
  "personalize example_base example_profiles =
     [(''productivity'', [JStr ''Great tool for focus'']),
      (''health'', [JStr ''Sleep well'']),
      (''creativity'', []),
      (''u1'', [JStr ''Sleep well'']),
      (''u2'', [JStr ''Sleep well''])]"
  by (simp add: example_base_def example_profiles_def personalize_one_def)

text \<open>
  C2 as stated fails: the second profile's interest is the id of the first, which is no
  label, and yet the coaching view has an entry for the second profile.
\<close>

theorem profile_entry_iff_interest_is_a_key_counterexample:
  "map_sum id (\<lambda>out. map fst (coaching_bot out))
     (fst (generate_outputs quiet_env (JObj example_items) [] (Some example_profiles))) =
     Inr [''productivity'', ''health'', ''creativity'', ''u1'', ''u2''] \<and>
   interest (example_profiles ! 1) = Some ''u1'' \<and>
   ''u1'' \<notin> set LABELS"
proof (intro conjI)
  have "coaching_bot (views_of example_items [] (Some example_profiles)) =
          personalize example_base example_profiles"
    by (simp only: coaching_bot_views example_base_knowledge)
  then have "map fst (coaching_bot (views_of example_items [] (Some example_profiles))) =
          [''productivity'', ''health'', ''creativity'', ''u1'', ''u2'']"
    by (simp add: example_personalized)
  then show "map_sum id (\<lambda>out. map fst (coaching_bot out))
     (fst (generate_outputs quiet_env (JObj example_items) [] (Some example_profiles))) =
     Inr [''productivity'', ''health'', ''creativity'', ''u1'', ''u2'']"
    by (simp add: example_ok)
  show "interest (example_profiles ! 1) = Some ''u1''"
    by (simp add: example_profiles_def)
  show "''u1'' \<notin> set LABELS" by (simp add: LABELS_def)
qed

theorem profiles_scan_the_growing_mapping_witness:
  "fst (generate_outputs quiet_env (JObj example_items) [] (Some example_profiles)) =
     Inr (views_of example_items [] (Some example_profiles)) \<and>
   (\<exists>kvs. JObj example_items = JObj kvs \<and>
       coaching_bot (views_of example_items [] (Some example_profiles)) =
         personalize (base_knowledge kvs) example_profiles) \<and>
   map fst (personalize example_base
              (example_profiles @ [\<lparr>profile_id = ''health'', interest = Some ''u2''\<rparr>])) =
     map fst (personalize example_base example_profiles) \<and>
   map_of (personalize example_base
             (example_profiles @ [\<lparr>profile_id = ''health'', interest = Some ''u2''\<rparr>])) ''health'' =
     Some [JStr ''Sleep well'']"
proof -
  let ?out = "views_of example_items [] (Some example_profiles)"
  let ?p = "\<lparr>profile_id = ''health'', interest = Some ''u2''\<rparr>"
  let ?ss = "[JStr ''Sleep well'']"
  note T = profiles_scan_the_growing_mapping
             [of quiet_env "JObj example_items" "[]" example_profiles ?out example_base ?p "''u2''" ?ss]
  have h: "fst (generate_outputs quiet_env (JObj example_items) [] (Some example_profiles)) = Inr ?out"
    by (rule example_ok)
  from T have "fst (generate_outputs quiet_env (JObj example_items) [] (Some example_profiles)) = Inr ?out \<longrightarrow>
      (\<exists>kvs. JObj example_items = JObj kvs \<and>
         coaching_bot ?out = personalize (base_knowledge kvs) example_profiles)"
    by (rule conjunct1)
  from this h have a: "\<exists>kvs. JObj example_items = JObj kvs \<and>
         coaching_bot ?out = personalize (base_knowledge kvs) example_profiles"
    by (rule mp)
  have g: "interest ?p = Some ''u2'' \<and>
           map_of (personalize example_base example_profiles) ''u2'' = Some ?ss \<and>
           profile_id ?p \<in> fst ` set (personalize example_base example_profiles)"
    by (simp add: example_personalized)
  from T have "interest ?p = Some ''u2'' \<and>
           map_of (personalize example_base example_profiles) ''u2'' = Some ?ss \<and>
           profile_id ?p \<in> fst ` set (personalize example_base example_profiles) \<longrightarrow>
      map fst (personalize example_base (example_profiles @ [?p])) =
        map fst (personalize example_base example_profiles) \<and>
      map_of (personalize example_base (example_profiles @ [?p])) (profile_id ?p) = Some ?ss"
    by (rule conjunct2 [OF conjunct2 [OF conjunct2]])
  from this g have "map fst (personalize example_base (example_profiles @ [?p])) =
        map fst (personalize example_base example_profiles) \<and>
      map_of (personalize example_base (example_profiles @ [?p])) (profile_id ?p) = Some ?ss"
    by (rule mp)
  then have b: "map fst (personalize example_base (example_profiles @ [?p])) =
        map fst (personalize example_base example_profiles) \<and>
      map_of (personalize example_base (example_profiles @ [?p])) ''health'' = Some ?ss"
    by simp
  from h a b show ?thesis by (intro conjI) (erule conjunct1 conjunct2 | assumption)+
qed

lemma example_keys: "map fst example_items = [''productivity'', ''health'', ''creativity'']"
  by (simp add: example_items_def example_buckets_def)

lemma example_key_set: "fst ` set example_items = {''productivity'', ''health'', ''creativity''}"
proof -
  have "fst ` set example_items = set (map fst example_items)" by simp
  then show ?thesis by (simp only: example_keys) simp
qed

theorem profile_entry_iff_interest_is_a_key_witness:
  "fst (generate_outputs quiet_env (JObj example_items) [] (Some forward_profiles)) =
     Inr (views_of example_items [] (Some forward_profiles)) \<and>
   ''u1'' \<notin> fst ` set (coaching_bot (views_of example_items [] (Some forward_profiles))) \<and>
   ''u2'' \<in> fst ` set (coaching_bot (views_of example_items [] (Some forward_profiles))) \<and>
   map_of (coaching_bot (views_of example_items [] (Some forward_profiles))) ''u2'' =
     Some [JStr ''Sleep well''] \<and>
   fst (generate_outputs quiet_env (JObj example_items) [] (Some example_profiles)) =
     Inr (views_of example_items [] (Some example_profiles)) \<and>
   ''u1'' \<in> fst ` set (coaching_bot (views_of example_items [] (Some example_profiles))) \<and>
   ''u2'' \<in> fst ` set (coaching_bot (views_of example_items [] (Some example_profiles))) \<and>
   map_of (coaching_bot (views_of example_items [] (Some example_profiles))) ''u2'' =
     map_of (coaching_bot (views_of example_items [] (Some example_profiles))) ''u1''"
proof -
  let ?f1 = "\<lparr>profile_id = ''u1'', interest = Some ''u2''\<rparr>"
  let ?f2 = "\<lparr>profile_id = ''u2'', interest = Some ''health''\<rparr>"
  let ?c1 = "\<lparr>profile_id = ''u1'', interest = Some ''health''\<rparr>"
  let ?c2 = "\<lparr>profile_id = ''u2'', interest = Some ''u1''\<rparr>"
  let ?fo = "views_of example_items [] (Some forward_profiles)"
  let ?co = "views_of example_items [] (Some example_profiles)"
  let ?F = "coaching_bot ?fo"
  let ?C = "coaching_bot ?co"
  let ?v = "JList [JObj [(''title'', JStr ''B''), (''snippet'', JStr ''Sleep well'')]]"
  have f1: "forward_profiles = [] @ ?f1 # [?f2]" by (simp add: forward_profiles_def)
  have f2: "forward_profiles = [?f1] @ ?f2 # []" by (simp add: forward_profiles_def)
  have c1: "example_profiles = [] @ ?c1 # [?c2]" by (simp add: example_profiles_def)
  have c2: "example_profiles = [?c1] @ ?c2 # []" by (simp add: example_profiles_def)
  have okf: "fst (generate_outputs quiet_env (JObj example_items) [] (Some forward_profiles)) = Inr ?fo"
    by (rule example_ok)
  have okc: "fst (generate_outputs quiet_env (JObj example_items) [] (Some example_profiles)) = Inr ?co"
    by (rule example_ok)
  have dk: "distinct (map fst example_items)" by (simp add: example_keys)
  have dpf: "distinct (map profile_id forward_profiles)" by (simp add: forward_profiles_def)
  have dpc: "distinct (map profile_id example_profiles)" by (simp add: example_profiles_def)
  have nkf: "profile_id ` set forward_profiles \<inter> fst ` set example_items = {}"
    by (simp add: example_key_set forward_profiles_def)
  have nkc: "profile_id ` set example_profiles \<inter> fst ` set example_items = {}"
    by (simp add: example_key_set example_profiles_def)
  note F1 = profile_entry_iff_interest_is_a_key
              [OF okf [unfolded f1] dk dpf [unfolded f1] nkf [unfolded f1], folded f1]
  note F2 = profile_entry_iff_interest_is_a_key
              [OF okf [unfolded f2] dk dpf [unfolded f2] nkf [unfolded f2], folded f2]
  note C1 = profile_entry_iff_interest_is_a_key
              [OF okc [unfolded c1] dk dpc [unfolded c1] nkc [unfolded c1], folded c1]
  note C2 = profile_entry_iff_interest_is_a_key
              [OF okc [unfolded c2] dk dpc [unfolded c2] nkc [unfolded c2], folded c2]
  from F1 have "profile_id ?f1 \<in> fst ` set ?F \<longleftrightarrow>
      (\<exists>i. interest ?f1 = Some i \<and>
           (i \<in> fst ` set example_items \<or>
            (\<exists>q\<in>set ([]::profile list). i = profile_id q \<and> profile_id q \<in> fst ` set ?F)))"
    by (rule conjunct1)
  moreover have "\<not> (\<exists>i. interest ?f1 = Some i \<and>
           (i \<in> fst ` set example_items \<or>
            (\<exists>q\<in>set ([]::profile list). i = profile_id q \<and> profile_id q \<in> fst ` set ?F)))"
    by (simp add: example_key_set)
  ultimately have "profile_id ?f1 \<notin> fst ` set ?F" by simp
  then have a: "''u1'' \<notin> fst ` set ?F" by simp
  from F2 have "(profile_id ?f2 \<in> fst ` set ?F \<longleftrightarrow>
             (\<exists>i. interest ?f2 = Some i \<and> i \<in> fst ` set example_items)) \<longleftrightarrow>
          \<not> (\<exists>q\<in>set [?f1]. interest ?f2 = Some (profile_id q) \<and> profile_id q \<in> fst ` set ?F)"
    by (rule conjunct1 [OF conjunct2])
  moreover have "\<not> (\<exists>q\<in>set [?f1]. interest ?f2 = Some (profile_id q) \<and>
                     profile_id q \<in> fst ` set ?F)"
    by simp
  ultimately have "profile_id ?f2 \<in> fst ` set ?F \<longleftrightarrow>
             (\<exists>i. interest ?f2 = Some i \<and> i \<in> fst ` set example_items)"
    by (rule iffD2)
  moreover have "\<exists>i. interest ?f2 = Some i \<and> i \<in> fst ` set example_items"
    by (simp add: example_key_set)
  ultimately have "profile_id ?f2 \<in> fst ` set ?F" by (rule iffD2)
  then have b: "''u2'' \<in> fst ` set ?F" by simp
  from F2 have "\<forall>i v. interest ?f2 = Some i \<and> map_of example_items i = Some v \<longrightarrow>
      map_of ?F (profile_id ?f2) = Some (map snippet_of (bucket_hits v))"
    by (rule conjunct1 [OF conjunct2 [OF conjunct2]])
  then have "interest ?f2 = Some ''health'' \<and> map_of example_items ''health'' = Some ?v \<longrightarrow>
      map_of ?F (profile_id ?f2) = Some (map snippet_of (bucket_hits ?v))"
    by (elim allE)
  moreover have "interest ?f2 = Some ''health'' \<and> map_of example_items ''health'' = Some ?v"
    by (simp add: example_items_def example_buckets_def hit_json_def)
  ultimately have "map_of ?F (profile_id ?f2) = Some (map snippet_of (bucket_hits ?v))"
    by (rule mp)
  then have c: "map_of ?F ''u2'' = Some [JStr ''Sleep well'']"
    by (simp add: bucket_hits_def snippet_of_def)
  from C1 have "profile_id ?c1 \<in> fst ` set ?C \<longleftrightarrow>
      (\<exists>i. interest ?c1 = Some i \<and>
           (i \<in> fst ` set example_items \<or>
            (\<exists>q\<in>set ([]::profile list). i = profile_id q \<and> profile_id q \<in> fst ` set ?C)))"
    by (rule conjunct1)
  moreover have "\<exists>i. interest ?c1 = Some i \<and>
           (i \<in> fst ` set example_items \<or>
            (\<exists>q\<in>set ([]::profile list). i = profile_id q \<and> profile_id q \<in> fst ` set ?C))"
    by (simp add: example_key_set)
  ultimately have d': "profile_id ?c1 \<in> fst ` set ?C" by (rule iffD2)
  then have d: "''u1'' \<in> fst ` set ?C" by simp
  from C2 have "profile_id ?c2 \<in> fst ` set ?C \<longleftrightarrow>
      (\<exists>i. interest ?c2 = Some i \<and>
           (i \<in> fst ` set example_items \<or>
            (\<exists>q\<in>set [?c1]. i = profile_id q \<and> profile_id q \<in> fst ` set ?C)))"
    by (rule conjunct1)
  moreover from d have "\<exists>i. interest ?c2 = Some i \<and>
           (i \<in> fst ` set example_items \<or>
            (\<exists>q\<in>set [?c1]. i = profile_id q \<and> profile_id q \<in> fst ` set ?C))"
    by simp
  ultimately have "profile_id ?c2 \<in> fst ` set ?C" by (rule iffD2)
  then have e: "''u2'' \<in> fst ` set ?C" by simp
  from C2 have "\<forall>q\<in>set [?c1]. interest ?c2 = Some (profile_id q) \<and>
                 profile_id q \<in> fst ` set ?C \<longrightarrow>
            map_of ?C (profile_id ?c2) = map_of ?C (profile_id q)"
    by (rule conjunct2 [OF conjunct2 [OF conjunct2]])
  then have "interest ?c2 = Some (profile_id ?c1) \<and> profile_id ?c1 \<in> fst ` set ?C \<longrightarrow>
            map_of ?C (profile_id ?c2) = map_of ?C (profile_id ?c1)"
    by (rule bspec) simp
  moreover from d' have "interest ?c2 = Some (profile_id ?c1) \<and> profile_id ?c1 \<in> fst ` set ?C"
    by simp
  ultimately have "map_of ?C (profile_id ?c2) = map_of ?C (profile_id ?c1)" by (rule mp)
  then have g: "map_of ?C ''u2'' = map_of ?C ''u1''" by simp
  from okf a b c okc d e g show ?thesis by (intro conjI)
qed

end
